theory Spec2Isabelle
  imports Main
begin

section \<open>JavaScript values used by the session recording\<close>

text \<open>
  A JavaScript string is modelled by the sequence of its Unicode code points. Its
  \<open>length\<close> property counts UTF-16 code units: one for a code point of the Basic
  Multilingual Plane, two (a surrogate pair) for every other code point. A Blob measures
  the same text in UTF-8 bytes.
\<close>

type_synonym jsstring = "nat list"

definition utf16_units :: "nat \<Rightarrow> nat" where
  "utf16_units c = (if c < 65536 then 1 else 2)"

definition js_length :: "jsstring \<Rightarrow> nat" where
  "js_length s = sum_list (map utf16_units s)"

definition utf8_bytes :: "nat \<Rightarrow> nat" where
  "utf8_bytes c = (if c < 128 then 1 else if c < 2048 then 2 else if c < 65536 then 3 else 4)"

definition utf8_size :: "jsstring \<Rightarrow> nat" where
  "utf8_size s = sum_list (map utf8_bytes s)"

definition ascii :: "string \<Rightarrow> jsstring" where
  "ascii s = map of_char s"

text \<open>
  A JavaScript number is modelled by an unbounded integer or \<open>NaN\<close>; the rounding of
  doubles beyond \<open>2^53\<close> is outside the model. Comparisons with \<open>NaN\<close> are false and
  arithmetic on \<open>NaN\<close> gives \<open>NaN\<close>.
\<close>

datatype jsnum = Num int | NaN

fun num_sub :: "jsnum \<Rightarrow> jsnum \<Rightarrow> jsnum" where
  "num_sub (Num a) (Num b) = Num (a - b)"
| "num_sub _ _ = NaN"

fun num_add :: "jsnum \<Rightarrow> jsnum \<Rightarrow> jsnum" where
  "num_add (Num a) (Num b) = Num (a + b)"
| "num_add _ _ = NaN"

fun num_lt :: "jsnum \<Rightarrow> jsnum \<Rightarrow> bool" where
  "num_lt (Num a) (Num b) = (a < b)"
| "num_lt _ _ = False"

fun num_ge :: "jsnum \<Rightarrow> jsnum \<Rightarrow> bool" where
  "num_ge (Num a) (Num b) = (a \<ge> b)"
| "num_ge _ _ = False"

text \<open>\<open>Math.max(x, 0)\<close>: \<open>NaN\<close> if \<open>x\<close> is \<open>NaN\<close>.\<close>

fun num_max0 :: "jsnum \<Rightarrow> jsnum" where
  "num_max0 (Num a) = Num (max a 0)"
| "num_max0 NaN = NaN"

text \<open>Truthiness of a number: \<open>0\<close> and \<open>NaN\<close> are falsy.\<close>

fun truthy :: "jsnum \<Rightarrow> bool" where
  "truthy (Num a) = (a \<noteq> 0)"
| "truthy NaN = False"

text \<open>A variable that holds a number or \<open>null\<close>; \<open>null\<close> is \<open>0\<close> in arithmetic.\<close>

fun null_to_num :: "jsnum option \<Rightarrow> jsnum" where
  "null_to_num None = Num 0"
| "null_to_num (Some v) = v"

subsection \<open>parseInt\<close>

text \<open>
  \<open>parseInt(string)\<close> with no radix: leading white space is skipped, a sign is read, the
  prefix \<open>0x\<close> selects radix 16, and the longest prefix of digits is the value; no digit
  gives \<open>NaN\<close>. An absent argument (\<open>undefined\<close>) gives \<open>NaN\<close>.
\<close>

definition isWhiteSpace :: "nat \<Rightarrow> bool" where
  "isWhiteSpace c = (c \<in> set [9, 10, 11, 12, 13, 32, 160, 5760, 8232, 8233, 8239, 8287, 12288, 65279]
      \<or> (8192 \<le> c \<and> c \<le> 8202))"

definition digitValue :: "nat \<Rightarrow> nat \<Rightarrow> nat option" where
  "digitValue radix c =
     (let d = (if 48 \<le> c \<and> c \<le> 57 then Some (c - 48)
               else if 97 \<le> c \<and> c \<le> 122 then Some (c - 87)
               else if 65 \<le> c \<and> c \<le> 90 then Some (c - 55)
               else None)
      in case d of None \<Rightarrow> None | Some n \<Rightarrow> if n < radix then Some n else None)"

fun readDigits :: "nat \<Rightarrow> jsstring \<Rightarrow> nat list" where
  "readDigits radix [] = []"
| "readDigits radix (c # cs) =
     (case digitValue radix c of None \<Rightarrow> [] | Some d \<Rightarrow> d # readDigits radix cs)"

definition digitsToNumber :: "nat \<Rightarrow> nat list \<Rightarrow> jsnum" where
  "digitsToNumber radix ds =
     (if ds = [] then NaN else Num (int (foldl (\<lambda>a d. a * radix + d) 0 ds)))"

fun num_neg :: "jsnum \<Rightarrow> jsnum" where
  "num_neg (Num a) = Num (- a)"
| "num_neg NaN = NaN"

definition parseUnsigned :: "jsstring \<Rightarrow> jsnum" where
  "parseUnsigned s =
     (if take 2 s = [48, 120] \<or> take 2 s = [48, 88]
      then digitsToNumber 16 (readDigits 16 (drop 2 s))
      else digitsToNumber 10 (readDigits 10 s))"

definition parseInt :: "jsstring option \<Rightarrow> jsnum" where
  "parseInt arg =
     (case arg of
        None \<Rightarrow> NaN
      | Some str \<Rightarrow>
          (case dropWhile isWhiteSpace str of
             [] \<Rightarrow> NaN
           | c # cs \<Rightarrow>
               if c = 45 then num_neg (parseUnsigned cs)
               else if c = 43 then parseUnsigned cs
               else parseUnsigned (c # cs)))"

section \<open>The Guacamole wire format\<close>

text \<open>
  Modelled from the spec: the instruction grammar that the external parser decodes. An
  instruction is a non-empty sequence of elements \<open>LENGTH.VALUE\<close> separated by \<open>,\<close> and
  terminated by \<open>;\<close>, where \<open>LENGTH\<close> is the decimal count of Unicode code points in
  \<open>VALUE\<close>.
\<close>

fun decimal :: "nat \<Rightarrow> jsstring" where
  "decimal n = (if n < 10 then [48 + n] else decimal (n div 10) @ [48 + n mod 10])"

declare decimal.simps [simp del]

definition digits :: "nat \<Rightarrow> nat" where
  "digits n = length (decimal n)"

definition encode_element :: "jsstring \<Rightarrow> jsstring" where
  "encode_element v = decimal (length v) @ [46] @ v"

fun encode_elements :: "jsstring list \<Rightarrow> jsstring" where
  "encode_elements [] = [59]"
| "encode_elements [e] = encode_element e @ [59]"
| "encode_elements (e # es) = encode_element e @ [44] @ encode_elements es"

type_synonym instruction = "jsstring \<times> jsstring list"

definition encode_instruction :: "instruction \<Rightarrow> jsstring" where
  "encode_instruction i = encode_elements (fst i # snd i)"

definition encode_blob :: "instruction list \<Rightarrow> jsstring" where
  "encode_blob is = concat (map encode_instruction is)"

section \<open>Element sizes\<close>

text \<open>
  \<open>getElementSize\<close>: the \<open>while\<close> loop adds one to \<open>protocolSize\<close> for every further digit
  of the length prefix.
\<close>

function getElementSize_loop :: "nat \<Rightarrow> nat \<Rightarrow> nat" where
  "getElementSize_loop protocolSize valueLength =
     (if valueLength \<ge> 10
      then getElementSize_loop (protocolSize + 1) (valueLength div 10)
      else protocolSize)"
  by pat_completeness auto
termination
  by (relation "measure snd") auto

declare getElementSize_loop.simps [simp del]

definition getElementSize :: "jsstring \<Rightarrow> nat" where
  "getElementSize value =
     (let valueLength = js_length value;
          protocolSize = valueLength + 3
      in getElementSize_loop protocolSize valueLength)"

lemma getElementSize_loop_digits:
  "getElementSize_loop p n = p + digits n - 1"
proof (induction p n rule: getElementSize_loop.induct)
  case (1 p n)
  show ?case
  proof (cases "n \<ge> 10")
    case True
    then have "digits n = digits (n div 10) + 1"
      by (simp add: digits_def decimal.simps [of n])
    moreover have "digits (n div 10) \<ge> 1"
      by (simp add: digits_def decimal.simps [of "n div 10"])
    ultimately show ?thesis
      using True 1 by (simp add: getElementSize_loop.simps [of p n])
  next
    case False
    then show ?thesis
      by (simp add: getElementSize_loop.simps [of p n] digits_def decimal.simps [of n])
  qed
qed

lemma js_length_bmp:
  "\<forall>c \<in> set s. c < 65536 \<Longrightarrow> js_length s = length s"
  by (induction s) (simp_all add: js_length_def utf16_units_def)

lemma getElementSize_units:
  "getElementSize v = js_length v + digits (js_length v) + 2"
proof -
  have "digits (js_length v) \<ge> 1"
    by (simp add: digits_def decimal.simps [of "js_length v"])
  then show ?thesis
    by (simp add: getElementSize_def Let_def getElementSize_loop_digits)
qed

section \<open>Frames and the recording\<close>

text \<open>
  The display client is opaque. Its state is modelled by the list of frame indices whose
  instructions it has interpreted since it was blank; \<open>exportState\<close> yields that list
  and \<open>importState\<close> replaces it.
\<close>

type_synonym snapshot = "nat list"

record frame =
  keyframe :: bool
  timestamp :: jsnum
  start :: nat
  end_off :: nat
  clientState :: "snapshot option"

definition Frame :: "jsnum \<Rightarrow> nat \<Rightarrow> nat \<Rightarrow> frame" where
  "Frame ts s e =
     \<lparr>keyframe = False, timestamp = ts, start = s, end_off = e, clientState = None\<rparr>"

text \<open>
  \<open>frames[i]\<close>: an index outside the array gives \<open>undefined\<close>, and reading a property of
  it throws a TypeError, modelled by \<open>None\<close>.
\<close>

definition frame_at :: "frame list \<Rightarrow> int \<Rightarrow> frame option" where
  "frame_at fs i = (if 0 \<le> i \<and> i < int (length fs) then Some (fs ! nat i) else None)"

datatype event =
    OnLoad | OnError | OnAbort | OnProgress jsnum nat
  | OnPlay | OnPause | OnSeek jsnum int int | UserCallback nat

text \<open>
  The callback handed to \<open>seekToFrame\<close> is one of two closures: \<open>restorePlaybackState\<close>
  of a call of \<open>seek\<close> (a reference into the store of such closures) or
  \<open>frameDelayElapsed\<close> of \<open>continuePlayback\<close>.
\<close>

datatype callback = RestorePlaybackState nat | FrameDelayElapsed

text \<open>
  The closure \<open>continueReplay\<close> of one call of \<open>seekToFrame\<close>: its seek token
  \<open>thisSeek\<close>, \<open>startIndex\<close>, \<open>index\<close> and \<open>callback\<close>.
\<close>

datatype continuation = ContinueReplay nat int int callback

text \<open>
  What is waiting on the event loop: the read of a frame's slice started by
  \<open>replayFrame\<close>, a timer set by \<open>seekToFrame\<close>, and an \<open>exportState\<close> whose callback
  \<open>storeClientState\<close> has not run yet.
\<close>

datatype task =
    ReplayRead int continuation
  | Timeout continuation
  | ExportState nat snapshot

record recording =
  frames :: "frame list"
  lastKeyframe :: nat
  currentFrame :: int
  startVideoTimestamp :: "jsnum option"
  startRealTimestamp :: "jsnum option"
  activeSeek :: "nat option"
  seeks :: "nat \<Rightarrow> bool"
  nextSeek :: nat
  frameStart :: nat
  frameEnd :: nat
  aborted :: bool
  seekCallback :: "nat option"
  closures :: "nat \<Rightarrow> bool \<times> nat option"
  nextClosure :: nat
  display :: snapshot
  pending :: "task list"
  events :: "event list"
  clock :: int

text \<open>
  \<open>seeks\<close> is the store of seek tokens (the \<open>aborted\<close> property of each) and \<open>closures\<close>
  the store of \<open>restorePlaybackState\<close> closures (the variable \<open>originallyPlaying\<close> and the
  user's callback, if any); \<open>clock\<close> is the reading of \<open>new Date().getTime()\<close>. Every event
  handler is taken to be installed once the constructor has returned, and to record its
  call in \<open>events\<close>.
\<close>

definition initial :: "int \<Rightarrow> recording" where
  "initial now =
     \<lparr>frames = [], lastKeyframe = 0, currentFrame = -1,
      startVideoTimestamp = None, startRealTimestamp = None,
      activeSeek = None, seeks = (\<lambda>_. False), nextSeek = 0,
      frameStart = 0, frameEnd = 0, aborted = False,
      seekCallback = None, closures = (\<lambda>_. (False, None)), nextClosure = 0,
      display = [], pending = [], events = [], clock = now\<rparr>"

definition emit :: "event \<Rightarrow> recording \<Rightarrow> recording" where
  "emit e s = s\<lparr>events := events s @ [e]\<rparr>"

definition toRelativeTimestamp :: "frame list \<Rightarrow> jsnum \<Rightarrow> jsnum" where
  "toRelativeTimestamp fs ts =
     (if length fs = 0 then Num 0 else num_sub ts (timestamp (fs ! 0)))"

definition getDuration :: "recording \<Rightarrow> jsnum" where
  "getDuration s =
     (if length (frames s) = 0 then Num 0
      else toRelativeTimestamp (frames s) (timestamp (frames s ! (length (frames s) - 1))))"

definition getPosition :: "recording \<Rightarrow> jsnum option" where
  "getPosition s =
     (if currentFrame s = -1 then Some (Num 0)
      else case frame_at (frames s) (currentFrame s) of
             None \<Rightarrow> None
           | Some f \<Rightarrow> Some (toRelativeTimestamp (frames s) (timestamp f)))"

section \<open>The frame indexer\<close>

definition KEYFRAME_CHAR_INTERVAL :: int where
  "KEYFRAME_CHAR_INTERVAL = 16384"

definition KEYFRAME_TIME_INTERVAL :: int where
  "KEYFRAME_TIME_INTERVAL = 5000"

definition sync :: jsstring where
  "sync = ascii ''sync''"

definition flagKeyframe :: "recording \<Rightarrow> recording" where
  "flagKeyframe s =
     (let n = length (frames s) - 1
      in s\<lparr>frames := (frames s)[n := (frames s ! n)\<lparr>keyframe := True\<rparr>], lastKeyframe := n\<rparr>)"

text \<open>
  \<open>handleInstruction\<close>, the callback of the ingest. \<open>None\<close> is a TypeError thrown by
  \<open>frames[lastKeyframe].start\<close>.
\<close>

definition handleInstruction :: "jsstring \<Rightarrow> jsstring list \<Rightarrow> recording \<Rightarrow> recording option" where
  "handleInstruction opcode args s =
     (let s1 = s\<lparr>frameEnd := frameEnd s + getElementSize opcode + sum_list (map getElementSize args)\<rparr>
      in if opcode = sync then
           let ts = parseInt (case args of [] \<Rightarrow> None | a # _ \<Rightarrow> Some a);
               s2 = s1\<lparr>frames := frames s1 @ [Frame ts (frameStart s1) (frameEnd s1)],
                       frameStart := frameEnd s1\<rparr>;
               flagged =
                 (if length (frames s2) = 1 then Some (flagKeyframe s2)
                  else case frame_at (frames s2) (int (lastKeyframe s2)) of
                         None \<Rightarrow> None
                       | Some k \<Rightarrow>
                           if int (frameEnd s2) - int (start k) \<ge> KEYFRAME_CHAR_INTERVAL
                              \<and> num_ge (num_sub ts (timestamp k)) (Num KEYFRAME_TIME_INTERVAL)
                           then Some (flagKeyframe s2) else Some s2)
           in case flagged of
                None \<Rightarrow> None
              | Some s3 \<Rightarrow> Some (emit (OnProgress (getDuration s3) (frameEnd s3)) s3)
         else Some s1)"

fun parseInstructions :: "instruction list \<Rightarrow> recording \<Rightarrow> recording option" where
  "parseInstructions [] s = Some s"
| "parseInstructions (i # is) s =
     (case handleInstruction (fst i) (snd i) s of
        None \<Rightarrow> None
      | Some s' \<Rightarrow> parseInstructions is s')"

text \<open>
  \<open>recordingLoaded\<close>, the completion callback of the ingest, calls the handler \<open>onload\<close> if
  there is one; \<open>parseError\<close> is the \<open>catch\<close> branch of \<open>parseBlob\<close>, which calls \<open>onerror\<close>
  and reads no further.
\<close>

definition recordingLoaded :: "bool \<Rightarrow> recording \<Rightarrow> recording" where
  "recordingLoaded onload s = (if onload then emit OnLoad s else s)"

definition parseError :: "recording \<Rightarrow> recording" where
  "parseError s = emit OnError s"

text \<open>
  A complete load of a blob whose text is the encoding of the instructions \<open>is\<close>: the
  parser hands every instruction to \<open>handleInstruction\<close> in order, then the completion
  callback runs. For an empty blob it runs within the constructor, before a handler can
  have been installed.
\<close>

definition ingest :: "instruction list \<Rightarrow> recording \<Rightarrow> recording option" where
  "ingest is s = map_option (recordingLoaded (is \<noteq> [])) (parseInstructions is s)"

section \<open>Searching for a frame\<close>

function (domintros) findFrame :: "frame list \<Rightarrow> int \<Rightarrow> int \<Rightarrow> jsnum \<Rightarrow> int option" where
  "findFrame fs minIndex maxIndex ts =
     (if minIndex = maxIndex then Some minIndex
      else
        let midIndex = (minIndex + maxIndex) div 2
        in case frame_at fs midIndex of
             None \<Rightarrow> None
           | Some midFrame \<Rightarrow>
               let midTimestamp = toRelativeTimestamp fs (timestamp midFrame)
               in if num_lt ts midTimestamp \<and> midIndex > minIndex
                  then findFrame fs minIndex (midIndex - 1) ts
                  else if num_lt midTimestamp ts \<and> midIndex < maxIndex
                  then findFrame fs (midIndex + 1) maxIndex ts
                  else Some midIndex)"
  by pat_completeness auto
termination
  by (relation "measure (\<lambda>(fs, minIndex, maxIndex, ts). nat (maxIndex - minIndex))") auto

declare findFrame.simps [simp del]

section \<open>The playback engine\<close>

definition abortSeek :: "recording \<Rightarrow> recording" where
  "abortSeek s =
     (case activeSeek s of
        None \<Rightarrow> s
      | Some t \<Rightarrow> s\<lparr>seeks := (seeks s)(t := True), activeSeek := None\<rparr>)"

text \<open>\<open>isPlaying\<close> returns \<open>!!startVideoTimestamp\<close>.\<close>

definition isPlaying :: "recording \<Rightarrow> bool" where
  "isPlaying s = (case startVideoTimestamp s of None \<Rightarrow> False | Some v \<Rightarrow> truthy v)"

definition pause :: "recording \<Rightarrow> recording" where
  "pause s =
     (let s1 = abortSeek s
      in if isPlaying s1
         then (emit OnPause s1)\<lparr>startVideoTimestamp := None, startRealTimestamp := None\<rparr>
         else s1)"

text \<open>
  The \<open>for\<close> loop of \<open>seekToFrame\<close> that backs up from \<open>index\<close> until \<open>startIndex\<close>
  represents the current state; it returns the final \<open>startIndex\<close>.
\<close>

function seekToFrame_loop :: "int \<Rightarrow> int \<Rightarrow> recording \<Rightarrow> (int \<times> recording) option" where
  "seekToFrame_loop index startIndex s =
     (if startIndex \<ge> 0 then
        if startIndex = currentFrame s then Some (startIndex, s)
        else case frame_at (frames s) startIndex of
               None \<Rightarrow> None
             | Some frame \<Rightarrow>
                 (case clientState frame of
                    Some st \<Rightarrow> Some (startIndex, s\<lparr>display := st, currentFrame := index\<rparr>)
                  | None \<Rightarrow> seekToFrame_loop index (startIndex - 1) s)
      else Some (startIndex, s))"
  by pat_completeness auto
termination
  by (relation "measure (\<lambda>(index, startIndex, s). nat (startIndex + 1))") auto

declare seekToFrame_loop.simps [simp del]

text \<open>
  \<open>replayFrame\<close> starts the asynchronous read of the frame's slice; the rest of it runs
  in \<open>replayCompleted\<close> below. Every frame of the indexer is non-empty, so the read never
  completes within the call.
\<close>

definition replayFrame :: "int \<Rightarrow> continuation \<Rightarrow> recording \<Rightarrow> recording option" where
  "replayFrame index k s =
     (case frame_at (frames s) index of
        None \<Rightarrow> None
      | Some frame \<Rightarrow> Some (s\<lparr>pending := pending s @ [ReplayRead index k]\<rparr>))"

text \<open>
  \<open>continueReplay\<close> ends with the call \<open>callback()\<close>, and \<open>seekToFrame\<close> with the call
  \<open>continueReplay()\<close>. The bodies below do everything up to that last call and return
  whether it is due; \<open>continueReplay\<close> and \<open>seekToFrame\<close> then make it.
\<close>

fun continueReplay_body :: "continuation \<Rightarrow> recording \<Rightarrow> (bool \<times> recording) option" where
  "continueReplay_body (ContinueReplay thisSeek startIndex index cb) s =
     (case (if currentFrame s > startIndex
            then case frame_at (frames s) (currentFrame s) of
                   None \<Rightarrow> None
                 | Some f \<Rightarrow>
                     Some (emit (OnSeek (toRelativeTimestamp (frames s) (timestamp f))
                                   (currentFrame s - startIndex) (index - startIndex)) s)
            else Some s) of
        None \<Rightarrow> None
      | Some s1 \<Rightarrow>
          if seeks s1 thisSeek then Some (False, s1)
          else if currentFrame s1 < index
          then map_option (Pair False)
                 (replayFrame (currentFrame s1 + 1) (ContinueReplay thisSeek startIndex index cb) s1)
          else Some (True, s1))"

definition seekToFrame_body :: "int \<Rightarrow> callback \<Rightarrow> jsnum \<Rightarrow> recording \<Rightarrow> (bool \<times> recording) option" where
  "seekToFrame_body index cb delay s =
     (let s1 = abortSeek s;
          thisSeek = nextSeek s1;
          s2 = s1\<lparr>seeks := (seeks s1)(thisSeek := False), nextSeek := thisSeek + 1,
                  activeSeek := Some thisSeek\<rparr>
      in case seekToFrame_loop index index s2 of
           None \<Rightarrow> None
         | Some (startIndex, s3) \<Rightarrow>
             if truthy delay
             then Some (False, s3\<lparr>pending := pending s3 @ [Timeout (ContinueReplay thisSeek startIndex index cb)]\<rparr>)
             else continueReplay_body (ContinueReplay thisSeek startIndex index cb) s3)"

lemma seekToFrame_loop_result:
  "seekToFrame_loop index startIndex s = Some (startIndex', s') \<Longrightarrow>
     frames s' = frames s \<and> (currentFrame s' = currentFrame s \<or> currentFrame s' = index)"
proof (induction index startIndex s rule: seekToFrame_loop.induct)
  case (1 index startIndex s)
  then show ?case
    by (subst (asm) (2) seekToFrame_loop.simps)
       (auto split: if_splits option.splits)
qed

lemma continueReplay_body_due:
  "continueReplay_body (ContinueReplay t startIndex index cb) s = Some (True, s') \<Longrightarrow>
     frames s' = frames s \<and> currentFrame s' = currentFrame s \<and> index \<le> currentFrame s"
  by (auto simp: emit_def replayFrame_def split: if_splits option.splits)

lemma seekToFrame_body_due:
  assumes "seekToFrame_body index cb delay s = Some (True, s')"
  shows "frames s' = frames s \<and> index \<le> currentFrame s'"
proof -
  let ?s2 = "(abortSeek s)\<lparr>seeks := (seeks (abortSeek s))(nextSeek (abortSeek s) := False),
                nextSeek := nextSeek (abortSeek s) + 1,
                activeSeek := Some (nextSeek (abortSeek s))\<rparr>"
  have f2: "frames ?s2 = frames s"
    by (simp add: abortSeek_def split: option.splits)
  from assms obtain startIndex s3 where
    loop: "seekToFrame_loop index index ?s2 = Some (startIndex, s3)" and
    body: "continueReplay_body (ContinueReplay (nextSeek (abortSeek s)) startIndex index cb) s3 = Some (True, s')"
    by (auto simp: seekToFrame_body_def Let_def split: option.splits if_splits)
  from seekToFrame_loop_result [OF loop] continueReplay_body_due [OF body] f2
  show ?thesis by simp
qed

text \<open>
  \<open>continuePlayback\<close>. The callback it hands to \<open>seekToFrame\<close> calls it again; that
  happens within the same call when the seek needs no replay and no delay.
\<close>

function continuePlayback :: "recording \<Rightarrow> recording option" where
  "continuePlayback s =
     (if currentFrame s + 1 < int (length (frames s)) then
        case frame_at (frames s) (currentFrame s + 1) of
          None \<Rightarrow> None
        | Some next \<Rightarrow>
            (let nextRealTimestamp =
                   num_add (num_sub (timestamp next) (null_to_num (startVideoTimestamp s)))
                           (null_to_num (startRealTimestamp s));
                 delay = num_max0 (num_sub nextRealTimestamp (Num (clock s)))
             in (case seekToFrame_body (currentFrame s + 1) FrameDelayElapsed delay s of
                   None \<Rightarrow> None
                 | Some r \<Rightarrow> if fst r then continuePlayback (snd r) else Some (snd r)))
      else Some (pause s))"
  by pat_completeness auto
termination
proof (relation "measure (\<lambda>s. nat (int (length (frames s)) - currentFrame s))")
  show "wf (measure (\<lambda>s. nat (int (length (frames s)) - currentFrame s)))"
    by simp
next
  fix s :: recording and x2 xa xb x2a
  assume lt: "currentFrame s + 1 < int (length (frames s))"
    and body: "seekToFrame_body (currentFrame s + 1) FrameDelayElapsed xb s = Some x2a"
    and due: "fst x2a"
  from body due have "seekToFrame_body (currentFrame s + 1) FrameDelayElapsed xb s = Some (True, snd x2a)"
    by (cases x2a) simp
  from seekToFrame_body_due [OF this] lt
  show "(snd x2a, s) \<in> measure (\<lambda>s. nat (int (length (frames s)) - currentFrame s))"
    by simp
qed

declare continuePlayback.simps [simp del]

definition play :: "recording \<Rightarrow> recording option" where
  "play s =
     (if \<not> isPlaying s \<and> currentFrame s + 1 < int (length (frames s)) then
        let s1 = emit OnPlay s
        in case frame_at (frames s1) (currentFrame s1 + 1) of
             None \<Rightarrow> None
           | Some next \<Rightarrow>
               continuePlayback
                 (s1\<lparr>startVideoTimestamp := Some (timestamp next),
                     startRealTimestamp := Some (Num (clock s1))\<rparr>)
      else Some s)"

text \<open>
  \<open>restorePlaybackState\<close>, the closure that \<open>seek\<close> stores in \<open>seekCallback\<close>; \<open>c\<close> is its
  place in the store of closures.
\<close>

definition restorePlaybackState :: "nat \<Rightarrow> recording \<Rightarrow> recording option" where
  "restorePlaybackState c s =
     (let s1 = s\<lparr>seekCallback := None\<rparr>;
          originallyPlaying = fst (closures s1 c);
          userCallback = snd (closures s1 c)
      in case (if originallyPlaying
               then map_option (\<lambda>s2. s2\<lparr>closures := (closures s2)(c := (False, userCallback))\<rparr>) (play s1)
               else Some s1) of
           None \<Rightarrow> None
         | Some s3 \<Rightarrow>
             Some (case userCallback of None \<Rightarrow> s3 | Some u \<Rightarrow> emit (UserCallback u) s3))"

fun call :: "callback \<Rightarrow> recording \<Rightarrow> recording option" where
  "call FrameDelayElapsed s = continuePlayback s"
| "call (RestorePlaybackState c) s = restorePlaybackState c s"

fun callback_of :: "continuation \<Rightarrow> callback" where
  "callback_of (ContinueReplay thisSeek startIndex index cb) = cb"

definition continueReplay :: "continuation \<Rightarrow> recording \<Rightarrow> recording option" where
  "continueReplay k s =
     (case continueReplay_body k s of
        None \<Rightarrow> None
      | Some r \<Rightarrow> if fst r then call (callback_of k) (snd r) else Some (snd r))"

definition seekToFrame :: "int \<Rightarrow> callback \<Rightarrow> jsnum \<Rightarrow> recording \<Rightarrow> recording option" where
  "seekToFrame index cb delay s =
     (case seekToFrame_body index cb delay s of
        None \<Rightarrow> None
      | Some r \<Rightarrow> if fst r then call cb (snd r) else Some (snd r))"

definition cancel :: "recording \<Rightarrow> recording option" where
  "cancel s =
     (case seekCallback s of
        None \<Rightarrow> Some s
      | Some c \<Rightarrow> restorePlaybackState c (abortSeek s))"

text \<open>\<open>seek\<close>; the delay of its \<open>seekToFrame\<close> is absent, which is falsy like \<open>0\<close>.\<close>

definition seek :: "jsnum \<Rightarrow> nat option \<Rightarrow> recording \<Rightarrow> recording option" where
  "seek position userCallback s =
     (if length (frames s) = 0 then Some s
      else case cancel s of
             None \<Rightarrow> None
           | Some s1 \<Rightarrow>
               (let originallyPlaying = isPlaying s1;
                    s2 = pause s1;
                    c = nextClosure s2;
                    s3 = s2\<lparr>closures := (closures s2)(c := (originallyPlaying, userCallback)),
                            nextClosure := c + 1, seekCallback := Some c\<rparr>
                in (case findFrame (frames s3) 0 (int (length (frames s3)) - 1) position of
                      None \<Rightarrow> None
                    | Some target \<Rightarrow> seekToFrame target (RestorePlaybackState c) (Num 0) s3)))"

definition abort :: "recording \<Rightarrow> recording" where
  "abort s = (if \<not> aborted s then emit OnAbort (s\<lparr>aborted := True\<rparr>) else s)"

subsection \<open>Completions on the event loop\<close>

text \<open>
  \<open>replayCompleted\<close>: the slice of frame \<open>index\<close> has been read and parsed, every
  instruction of it has gone through the tunnel to the display, and the completion
  callback of \<open>replayFrame\<close> runs.
\<close>

definition replayCompleted :: "int \<Rightarrow> continuation \<Rightarrow> recording \<Rightarrow> recording option" where
  "replayCompleted index k s =
     (case frame_at (frames s) index of
        None \<Rightarrow> None
      | Some frame \<Rightarrow>
          let s1 = s\<lparr>display := display s @ [nat index]\<rparr>;
              s2 = (if keyframe frame \<and> clientState frame = None
                    then s1\<lparr>pending := pending s1 @ [ExportState (nat index) (display s1)]\<rparr>
                    else s1);
              s3 = s2\<lparr>currentFrame := index\<rparr>
          in continueReplay k s3)"

definition storeClientState :: "nat \<Rightarrow> snapshot \<Rightarrow> recording \<Rightarrow> recording" where
  "storeClientState i st s =
     s\<lparr>frames := (frames s)[i := (frames s ! i)\<lparr>clientState := Some st\<rparr>]\<rparr>"

fun run_task :: "task \<Rightarrow> recording \<Rightarrow> recording option" where
  "run_task (ReplayRead index k) s = replayCompleted index k s"
| "run_task (Timeout k) s = continueReplay k s"
| "run_task (ExportState i st) s = Some (storeClientState i st s)"

text \<open>The \<open>n\<close>-th waiting task completes.\<close>

definition complete :: "nat \<Rightarrow> recording \<Rightarrow> recording option" where
  "complete n s =
     (if n < length (pending s)
      then run_task (pending s ! n) (s\<lparr>pending := take n (pending s) @ drop (Suc n) (pending s)\<rparr>)
      else Some s)"

text \<open>
  The read of a frame's slice can also end in a parse error. Then \<open>parseBlob\<close> calls
  \<open>onerror\<close> and the completion callback of \<open>replayFrame\<close> never runs. The instructions
  of the slice before the error have reached the display, which is left in a state \<open>d\<close>
  that the model does not describe.
\<close>

definition replayFailed :: "nat \<Rightarrow> snapshot \<Rightarrow> recording \<Rightarrow> recording" where
  "replayFailed n d s =
     (if n < length (pending s) then
        case pending s ! n of
          ReplayRead index k \<Rightarrow>
            parseError (s\<lparr>pending := take n (pending s) @ drop (Suc n) (pending s), display := d\<rparr>)
        | Timeout k \<Rightarrow> s
        | ExportState i st \<Rightarrow> s
      else s)"

text \<open>
  The states of a recording: every step is the handling of one instruction of the
  ingest, the end of the ingest, a call of the public interface, the completion or the
  failure of a waiting task, or the clock moving on.
\<close>

inductive reachable :: "recording \<Rightarrow> bool" where
  r_initial: "reachable (initial now)"
| r_instruction: "reachable s \<Longrightarrow> \<not> aborted s \<Longrightarrow> handleInstruction opcode args s = Some s' \<Longrightarrow> reachable s'"
| r_loaded: "reachable s \<Longrightarrow> reachable (recordingLoaded onload s)"
| r_error: "reachable s \<Longrightarrow> reachable (parseError s)"
| r_clock: "reachable s \<Longrightarrow> clock s \<le> now \<Longrightarrow> reachable (s\<lparr>clock := now\<rparr>)"
| r_play: "reachable s \<Longrightarrow> play s = Some s' \<Longrightarrow> reachable s'"
| r_pause: "reachable s \<Longrightarrow> reachable (pause s)"
| r_seek: "reachable s \<Longrightarrow> seek position userCallback s = Some s' \<Longrightarrow> reachable s'"
| r_cancel: "reachable s \<Longrightarrow> cancel s = Some s' \<Longrightarrow> reachable s'"
| r_abort: "reachable s \<Longrightarrow> reachable (abort s)"
| r_complete: "reachable s \<Longrightarrow> complete n s = Some s' \<Longrightarrow> reachable s'"
| r_failed: "reachable s \<Longrightarrow> reachable (replayFailed n d s)"

section \<open>Evaluating the model\<close>

lemma digits_less10: "n < 10 \<Longrightarrow> digits n = 1"
  by (simp add: digits_def decimal.simps [of n])

lemma digits_ge10: "n \<ge> 10 \<Longrightarrow> digits n = Suc (digits (n div 10))"
  by (simp add: digits_def decimal.simps [of n])

lemma of_char_bmp: "of_char c < (65536::nat)"
  using nat_of_char_less_256 [of c] by linarith

lemma js_length_ascii: "js_length (ascii s) = length s"
  by (simp add: js_length_bmp ascii_def of_char_bmp)

lemma decimal_chars: "c \<in> set (decimal n) \<Longrightarrow> 48 \<le> c \<and> c \<le> 57"
proof (induction n arbitrary: c rule: decimal.induct)
  case (1 n)
  show ?case
  proof (cases "n < 10")
    case True
    with "1.prems" show ?thesis by (simp add: decimal.simps [of n])
  next
    case False
    with "1.prems" have "c \<in> set (decimal (n div 10)) \<or> c = 48 + n mod 10"
      by (auto simp: decimal.simps [of n])
    with "1.IH" [OF False] show ?thesis by auto
  qed
qed

lemma decimal_not_Nil: "decimal n \<noteq> []"
  by (simp add: decimal.simps [of n])

lemma readDigits_append:
  "\<forall>c \<in> set xs. 48 \<le> c \<and> c \<le> 57 \<Longrightarrow>
     readDigits 10 (xs @ ys) = map (\<lambda>c. c - 48) xs @ readDigits 10 ys"
  by (induction xs) (auto simp: digitValue_def)

lemma readDigits_decimal:
  "foldl (\<lambda>a d. a * 10 + d) 0 (readDigits 10 (decimal n)) = n \<and> readDigits 10 (decimal n) \<noteq> []"
proof (induction n rule: decimal.induct)
  case (1 n)
  show ?case
  proof (cases "n < 10")
    case True
    then show ?thesis by (simp add: decimal.simps [of n] digitValue_def)
  next
    case False
    have "readDigits 10 (decimal (n div 10) @ [48 + n mod 10])
        = map (\<lambda>c. c - 48) (decimal (n div 10)) @ readDigits 10 [48 + n mod 10]"
      by (rule readDigits_append) (use decimal_chars in blast)
    moreover have "readDigits 10 (decimal (n div 10) @ [])
        = map (\<lambda>c. c - 48) (decimal (n div 10)) @ readDigits 10 []"
      by (rule readDigits_append) (use decimal_chars in blast)
    ultimately have "readDigits 10 (decimal n) = readDigits 10 (decimal (n div 10)) @ [n mod 10]"
      using False by (simp add: decimal.simps [of n] digitValue_def)
    with "1.IH" [OF False] show ?thesis by simp
  qed
qed

lemma parseInt_decimal: "parseInt (Some (decimal n)) = Num (int n)"
proof -
  obtain c cs where d: "decimal n = c # cs"
    using decimal_not_Nil [of n] by (cases "decimal n") auto
  have c: "48 \<le> c \<and> c \<le> 57"
    using decimal_chars [of c n] d by simp
  then have ws: "dropWhile isWhiteSpace (decimal n) = c # cs"
    by (auto simp: d isWhiteSpace_def)
  have "120 \<notin> set (decimal n)" "88 \<notin> set (decimal n)"
    using decimal_chars [of 120 n] decimal_chars [of 88 n] by auto
  then have "120 \<notin> set (take 2 (decimal n))" "88 \<notin> set (take 2 (decimal n))"
    by (auto dest: in_set_takeD)
  then have nohex: "take 2 (decimal n) \<noteq> [48, 120]" "take 2 (decimal n) \<noteq> [48, 88]"
    by auto
  have "parseUnsigned (decimal n) = Num (int n)"
    using nohex readDigits_decimal [of n]
    by (simp add: parseUnsigned_def digitsToNumber_def)
  with c ws d show ?thesis
    by (simp add: parseInt_def)
qed

lemma js_length_decimal: "js_length (decimal n) = digits n"
  unfolding digits_def
  by (rule js_length_bmp) (use decimal_chars in fastforce)

lemma getElementSize_decimal: "getElementSize (decimal n) = digits n + digits (digits n) + 2"
  by (simp add: getElementSize_units js_length_decimal)

lemma getElementSize_sync: "getElementSize sync = 7"
  by (simp add: getElementSize_units sync_def js_length_ascii digits_less10)

lemmas eval_ingest = handleInstruction_def Let_def getElementSize_sync getElementSize_decimal
  digits_less10 digits_ge10 parseInt_decimal
  Frame_def flagKeyframe_def frame_at_def emit_def getDuration_def toRelativeTimestamp_def
  KEYFRAME_CHAR_INTERVAL_def KEYFRAME_TIME_INTERVAL_def initial_def ingest_def recordingLoaded_def

section \<open>Properties of the frame search\<close>

lemma findFrame_dom_all: "findFrame_dom (fs, a, b, ts)"
proof (induction fs a b ts rule: findFrame.induct)
  case (1 fs minIndex maxIndex ts)
  show ?case
    by (rule findFrame.domintros) (use 1 in auto)
qed

lemma findFrame_rel_shrinks:
  assumes "findFrame_rel (fs', lo, hi, ts') (fs, minIndex, maxIndex, ts)"
  shows "minIndex \<le> lo \<and> lo \<le> hi \<and> hi \<le> maxIndex \<and> hi - lo < maxIndex - minIndex"
  using assms by (cases rule: findFrame_rel.cases) auto

lemma frame_at_Some: "0 \<le> i \<Longrightarrow> i < int (length fs) \<Longrightarrow> frame_at fs i = Some (fs ! nat i)"
  by (simp add: frame_at_def)

lemma findFrame_single: "findFrame fs m m ts = Some m"
  by (simp add: findFrame.simps [of fs m m])

lemma findFrame_in_range:
  "0 \<le> a \<Longrightarrow> a \<le> b \<Longrightarrow> b < int (length fs) \<Longrightarrow>
     \<exists>r. findFrame fs a b ts = Some r \<and> a \<le> r \<and> r \<le> b"
proof (induction fs a b ts rule: findFrame.induct)
  case (1 fs minIndex maxIndex ts)
  let ?mid = "(minIndex + maxIndex) div 2"
  show ?case
  proof (cases "minIndex = maxIndex")
    case True
    then show ?thesis by (simp add: findFrame_single)
  next
    case False
    with 1 have mid: "minIndex \<le> ?mid" "?mid < maxIndex" "0 \<le> ?mid" "?mid < int (length fs)"
      by auto
    then have fa: "frame_at fs ?mid = Some (fs ! nat ?mid)"
      by (simp add: frame_at_Some)
    let ?mt = "toRelativeTimestamp fs (timestamp (fs ! nat ?mid))"
    consider (lower) "num_lt ts ?mt \<and> minIndex < ?mid"
      | (upper) "\<not> (num_lt ts ?mt \<and> minIndex < ?mid)" "num_lt ?mt ts \<and> ?mid < maxIndex"
      | (found) "\<not> (num_lt ts ?mt \<and> minIndex < ?mid)" "\<not> (num_lt ?mt ts \<and> ?mid < maxIndex)"
      by blast
    then show ?thesis
    proof cases
      case lower
      from "1.IH"(1) [OF False refl fa refl lower] 1 mid lower
      obtain r where "findFrame fs minIndex (?mid - 1) ts = Some r" "minIndex \<le> r" "r \<le> ?mid - 1"
        by auto
      with False fa lower mid show ?thesis
        by (simp add: findFrame.simps [of fs minIndex maxIndex] Let_def)
    next
      case upper
      from "1.IH"(2) [OF False refl fa refl upper] 1 mid
      obtain r where "findFrame fs (?mid + 1) maxIndex ts = Some r" "?mid + 1 \<le> r" "r \<le> maxIndex"
        by auto
      with False fa upper mid show ?thesis
        by (auto simp: findFrame.simps [of fs minIndex maxIndex] Let_def)
    next
      case found
      with False fa mid show ?thesis
        by (auto simp: findFrame.simps [of fs minIndex maxIndex] Let_def)
    qed
  qed
qed

text \<open>
  The distance that the search is said to minimise, in the words of the specification:
  \<open>|frame.timestamp - (frames[0].timestamp + position)|\<close>.
\<close>

fun num_abs :: "jsnum \<Rightarrow> jsnum" where
  "num_abs (Num a) = Num \<bar>a\<bar>"
| "num_abs NaN = NaN"

definition frameDistance :: "frame list \<Rightarrow> jsnum \<Rightarrow> frame \<Rightarrow> jsnum" where
  "frameDistance fs position f =
     num_abs (num_sub (timestamp f) (num_add (timestamp (fs ! 0)) position))"

definition minimisesDistance :: "frame list \<Rightarrow> jsnum \<Rightarrow> int \<Rightarrow> bool" where
  "minimisesDistance fs position r =
     (case frame_at fs r of
        None \<Rightarrow> False
      | Some f \<Rightarrow> list_all (\<lambda>g. num_ge (frameDistance fs position g) (frameDistance fs position f)) fs)"

definition frames_0_100 :: "frame list" where
  "frames_0_100 =
     [\<lparr>keyframe = True, timestamp = Num 0, start = 0, end_off = 11, clientState = None\<rparr>,
      \<lparr>keyframe = False, timestamp = Num 100, start = 11, end_off = 24, clientState = None\<rparr>]"

section \<open>What the playback engine leaves unchanged\<close>

text \<open>
  \<open>userCallbacks\<close> lists the calls of user callbacks among the events, \<open>exports\<close> the
  \<open>exportState\<close> requests among the waiting tasks. The functions that drive playback
  (\<open>playback_only\<close>) touch neither these nor the frame table, the state of the ingest
  and the stored seek callback.
\<close>

fun userCallbacks :: "event list \<Rightarrow> nat list" where
  "userCallbacks [] = []"
| "userCallbacks (UserCallback u # es) = u # userCallbacks es"
| "userCallbacks (e # es) = userCallbacks es"

fun exports :: "task list \<Rightarrow> (nat \<times> snapshot) list" where
  "exports [] = []"
| "exports (ExportState i st # ts) = (i, st) # exports ts"
| "exports (t # ts) = exports ts"

lemma userCallbacks_append [simp]: "userCallbacks (xs @ ys) = userCallbacks xs @ userCallbacks ys"
  by (induction xs rule: userCallbacks.induct) simp_all

lemma exports_append [simp]: "exports (xs @ ys) = exports xs @ exports ys"
  by (induction xs rule: exports.induct) simp_all

definition playback_only :: "recording \<Rightarrow> recording \<Rightarrow> bool" where
  "playback_only s s' \<longleftrightarrow>
     frames s' = frames s \<and> lastKeyframe s' = lastKeyframe s \<and> frameStart s' = frameStart s
     \<and> frameEnd s' = frameEnd s \<and> aborted s' = aborted s \<and> clock s' = clock s
     \<and> exports (pending s') = exports (pending s)
     \<and> seekCallback s' = seekCallback s \<and> closures s' = closures s
     \<and> nextClosure s' = nextClosure s
     \<and> userCallbacks (events s') = userCallbacks (events s)"

lemma playback_only_refl: "playback_only s s"
  by (simp add: playback_only_def)

lemma playback_only_trans: "playback_only s s1 \<Longrightarrow> playback_only s1 s2 \<Longrightarrow> playback_only s s2"
  by (simp add: playback_only_def)

lemma abortSeek_playback_only: "playback_only s (abortSeek s)"
  by (simp add: playback_only_def abortSeek_def split: option.splits)

lemma pause_playback_only: "playback_only s (pause s)"
  by (simp add: playback_only_def pause_def Let_def emit_def abortSeek_def split: option.splits)

lemma seekToFrame_loop_playback_only:
  "seekToFrame_loop index startIndex s = Some (startIndex', s') \<Longrightarrow> playback_only s s'"
proof (induction index startIndex s rule: seekToFrame_loop.induct)
  case (1 index startIndex s)
  then show ?case
    by (subst (asm) (2) seekToFrame_loop.simps)
       (auto simp: playback_only_def split: if_splits option.splits)
qed

declare continueReplay_body.simps [simp del]

lemma continueReplay_body_playback_only:
  "continueReplay_body k s = Some (b, s') \<Longrightarrow> playback_only s s'"
  by (cases k)
     (auto simp: continueReplay_body.simps playback_only_def emit_def replayFrame_def
           split: if_splits option.splits)

lemma seekToFrame_body_playback_only:
  assumes "seekToFrame_body index cb delay s = Some (b, s')"
  shows "playback_only s s'"
proof -
  let ?s2 = "(abortSeek s)\<lparr>seeks := (seeks (abortSeek s))(nextSeek (abortSeek s) := False),
                nextSeek := nextSeek (abortSeek s) + 1,
                activeSeek := Some (nextSeek (abortSeek s))\<rparr>"
  have s2: "playback_only s ?s2"
    using abortSeek_playback_only [of s] by (simp add: playback_only_def)
  from assms obtain startIndex s3 where
    loop: "seekToFrame_loop index index ?s2 = Some (startIndex, s3)"
    by (auto simp: seekToFrame_body_def Let_def split: option.splits)
  with assms have
    "(truthy delay \<and> s' = s3\<lparr>pending := pending s3 @ [Timeout (ContinueReplay (nextSeek (abortSeek s)) startIndex index cb)]\<rparr>)
     \<or> continueReplay_body (ContinueReplay (nextSeek (abortSeek s)) startIndex index cb) s3 = Some (b, s')"
    by (auto simp: seekToFrame_body_def Let_def split: if_splits)
  then have "playback_only s3 s'"
    by (auto simp: playback_only_def dest: continueReplay_body_playback_only)
  with s2 seekToFrame_loop_playback_only [OF loop] show ?thesis
    by (blast intro: playback_only_trans)
qed

lemma continuePlayback_playback_only:
  "continuePlayback s = Some s' \<Longrightarrow> playback_only s s'"
proof (induction s arbitrary: s' rule: continuePlayback.induct)
  case (1 s)
  show ?case
  proof (cases "currentFrame s + 1 < int (length (frames s))")
    case False
    with "1.prems" show ?thesis
      by (auto simp: continuePlayback.simps [of s] pause_playback_only)
  next
    case True
    with "1.prems" obtain nxt r where
      nxt: "frame_at (frames s) (currentFrame s + 1) = Some nxt" and
      body: "seekToFrame_body (currentFrame s + 1) FrameDelayElapsed
               (num_max0 (num_sub (num_add (num_sub (timestamp nxt) (null_to_num (startVideoTimestamp s)))
                  (null_to_num (startRealTimestamp s))) (Num (clock s)))) s = Some r" and
      rest: "(if fst r then continuePlayback (snd r) else Some (snd r)) = Some s'"
      by (auto simp: continuePlayback.simps [of s] Let_def split: option.splits)
    from body have step: "playback_only s (snd r)"
      by (cases r) (auto dest: seekToFrame_body_playback_only)
    show ?thesis
    proof (cases "fst r")
      case True
      with rest have "continuePlayback (snd r) = Some s'" by simp
      from "1.IH" [OF \<open>currentFrame s + 1 < int (length (frames s))\<close> nxt refl refl body True this] step
      show ?thesis by (blast intro: playback_only_trans)
    next
      case False
      with rest step show ?thesis by simp
    qed
  qed
qed

lemma play_playback_only: "play s = Some s' \<Longrightarrow> playback_only s s'"
proof -
  assume p: "play s = Some s'"
  show ?thesis
  proof (cases "\<not> isPlaying s \<and> currentFrame s + 1 < int (length (frames s))")
    case False
    with p show ?thesis by (auto simp: play_def playback_only_refl)
  next
    case True
    with p have "\<exists>nxt :: frame. continuePlayback ((emit OnPlay s)\<lparr>startVideoTimestamp := Some (timestamp nxt),
          startRealTimestamp := Some (Num (clock (emit OnPlay s)))\<rparr>) = Some s'"
      by (auto simp: play_def Let_def split: option.splits)
    then obtain nxt :: frame where
      "continuePlayback ((emit OnPlay s)\<lparr>startVideoTimestamp := Some (timestamp nxt),
          startRealTimestamp := Some (Num (clock (emit OnPlay s)))\<rparr>) = Some s'" ..
    from continuePlayback_playback_only [OF this] show ?thesis
      by (simp add: playback_only_def emit_def)
  qed
qed

definition engine_step :: "recording \<Rightarrow> recording \<Rightarrow> bool" where
  "engine_step s s' \<longleftrightarrow>
     frames s' = frames s \<and> lastKeyframe s' = lastKeyframe s \<and> frameStart s' = frameStart s
     \<and> frameEnd s' = frameEnd s \<and> aborted s' = aborted s \<and> clock s' = clock s
     \<and> exports (pending s') = exports (pending s)"

lemma playback_only_engine_step: "playback_only s s' \<Longrightarrow> engine_step s s'"
  by (simp add: playback_only_def engine_step_def)

lemma engine_step_trans: "engine_step s s1 \<Longrightarrow> engine_step s1 s2 \<Longrightarrow> engine_step s s2"
  by (simp add: engine_step_def)

lemma restorePlaybackState_unfold:
  "restorePlaybackState c s =
     (case (if fst (closures s c)
            then map_option (\<lambda>s2. s2\<lparr>closures := (closures s2)(c := (False, snd (closures s c)))\<rparr>)
                   (play (s\<lparr>seekCallback := None\<rparr>))
            else Some (s\<lparr>seekCallback := None\<rparr>)) of
        None \<Rightarrow> None
      | Some s3 \<Rightarrow> Some (case snd (closures s c) of None \<Rightarrow> s3 | Some u \<Rightarrow> emit (UserCallback u) s3))"
  by (simp add: restorePlaybackState_def Let_def split: option.splits)

lemma restorePlaybackState_result:
  assumes "restorePlaybackState c s = Some s'"
  shows "engine_step s s' \<and> seekCallback s' = None
    \<and> userCallbacks (events s') = userCallbacks (events s) @ (case snd (closures s c) of None \<Rightarrow> [] | Some u \<Rightarrow> [u])"
proof -
  let ?s1 = "s\<lparr>seekCallback := None\<rparr>"
  from assms obtain s3 where
    s3: "(if fst (closures s c)
          then map_option (\<lambda>s2. s2\<lparr>closures := (closures s2)(c := (False, snd (closures s c)))\<rparr>) (play ?s1)
          else Some ?s1) = Some s3" and
    s': "s' = (case snd (closures s c) of None \<Rightarrow> s3 | Some u \<Rightarrow> emit (UserCallback u) s3)"
    unfolding restorePlaybackState_unfold by (auto split: option.splits)
  have "playback_only ?s1 s3 \<or> (\<exists>s2. playback_only ?s1 s2 \<and> s3 = s2\<lparr>closures := (closures s2)(c := (False, snd (closures s c)))\<rparr>)"
    using s3 by (auto simp: playback_only_refl split: if_splits dest: play_playback_only)
  then have "engine_step s s3 \<and> seekCallback s3 = None \<and> userCallbacks (events s3) = userCallbacks (events s)"
    by (auto simp: playback_only_def engine_step_def)
  with s' show ?thesis
    by (auto simp: engine_step_def emit_def split: option.splits)
qed

lemma call_engine_step: "call cb s = Some s' \<Longrightarrow> engine_step s s'"
  by (cases cb)
     (auto dest: restorePlaybackState_result continuePlayback_playback_only playback_only_engine_step)

lemma continueReplay_engine_step:
  assumes "continueReplay k s = Some s'"
  shows "engine_step s s'"
proof -
  from assms obtain r where
    body: "continueReplay_body k s = Some r" and
    rest: "(if fst r then call (callback_of k) (snd r) else Some (snd r)) = Some s'"
    by (auto simp: continueReplay_def split: option.splits)
  from body have "engine_step s (snd r)"
    by (cases r) (auto dest: continueReplay_body_playback_only playback_only_engine_step)
  with rest show ?thesis
    by (auto split: if_splits dest: call_engine_step engine_step_trans)
qed

lemma seekToFrame_engine_step:
  assumes "seekToFrame index cb delay s = Some s'"
  shows "engine_step s s'"
proof -
  from assms obtain r where
    body: "seekToFrame_body index cb delay s = Some r" and
    rest: "(if fst r then call cb (snd r) else Some (snd r)) = Some s'"
    by (auto simp: seekToFrame_def split: option.splits)
  from body have "engine_step s (snd r)"
    by (cases r) (auto dest: seekToFrame_body_playback_only playback_only_engine_step)
  with rest show ?thesis
    by (auto split: if_splits dest: call_engine_step engine_step_trans)
qed

lemma cancel_engine_step:
  assumes "cancel s = Some s'"
  shows "engine_step s s'"
proof (cases "seekCallback s")
  case None
  with assms show ?thesis by (simp add: cancel_def engine_step_def)
next
  case (Some c)
  with assms have "restorePlaybackState c (abortSeek s) = Some s'"
    by (simp add: cancel_def)
  from restorePlaybackState_result [OF this] abortSeek_playback_only [of s]
  show ?thesis
    by (blast intro: engine_step_trans playback_only_engine_step)
qed

lemma seek_engine_step:
  assumes "seek position userCallback s = Some s'"
  shows "engine_step s s'"
proof (cases "length (frames s) = 0")
  case True
  with assms show ?thesis by (simp add: seek_def engine_step_def)
next
  case False
  with assms obtain s1 target where
    c: "cancel s = Some s1" and
    sk: "seekToFrame target (RestorePlaybackState (nextClosure (pause s1))) (Num 0)
           ((pause s1)\<lparr>closures := (closures (pause s1))(nextClosure (pause s1) := (isPlaying s1, userCallback)),
                        nextClosure := nextClosure (pause s1) + 1,
                        seekCallback := Some (nextClosure (pause s1))\<rparr>) = Some s'"
    by (auto simp: seek_def Let_def split: option.splits)
  have "engine_step s1 (pause s1)"
    by (simp add: pause_playback_only playback_only_engine_step)
  then have "engine_step s1 ((pause s1)\<lparr>closures := (closures (pause s1))(nextClosure (pause s1) := (isPlaying s1, userCallback)),
                        nextClosure := nextClosure (pause s1) + 1,
                        seekCallback := Some (nextClosure (pause s1))\<rparr>)"
    by (simp add: engine_step_def)
  with cancel_engine_step [OF c] seekToFrame_engine_step [OF sk] show ?thesis
    by (blast intro: engine_step_trans)
qed

lemma replayCompleted_result:
  assumes "replayCompleted index k s = Some s'"
  shows "frames s' = frames s \<and>
     (exports (pending s') = exports (pending s)
      \<or> (\<exists>st. exports (pending s') = exports (pending s) @ [(nat index, st)]
           \<and> 0 \<le> index \<and> nat index < length (frames s) \<and> keyframe (frames s ! nat index)))"
proof -
  from assms obtain f where
    f: "frame_at (frames s) index = Some f" and
    k: "continueReplay k
          ((if keyframe f \<and> clientState f = None
            then s\<lparr>display := display s @ [nat index], pending := pending s @ [ExportState (nat index) (display s @ [nat index])]\<rparr>
            else s\<lparr>display := display s @ [nat index]\<rparr>)\<lparr>currentFrame := index\<rparr>) = Some s'"
    by (auto simp: replayCompleted_def Let_def split: option.splits if_splits)
  from f have "0 \<le> index" "nat index < length (frames s)" "f = frames s ! nat index"
    by (auto simp: frame_at_def split: if_splits)
  with continueReplay_engine_step [OF k] show ?thesis
    by (auto simp: engine_step_def split: if_splits)
qed

section \<open>The position stays inside the frame table\<close>

text \<open>
  \<open>currentFrame\<close> is \<open>-1\<close> or the index of a frame, whatever the engine does.
\<close>

definition valid_position :: "recording \<Rightarrow> bool" where
  "valid_position s \<longleftrightarrow> - 1 \<le> currentFrame s \<and> currentFrame s < int (length (frames s))"

lemma seekToFrame_loop_valid:
  assumes "seekToFrame_loop index index s = Some (startIndex, s')" and "valid_position s"
  shows "valid_position s'"
proof -
  from seekToFrame_loop_result [OF assms(1)]
  have same: "frames s' = frames s" and cf: "currentFrame s' = currentFrame s \<or> currentFrame s' = index"
    by simp_all
  show ?thesis
  proof (cases "currentFrame s' = currentFrame s")
    case True
    with same assms(2) show ?thesis by (simp add: valid_position_def)
  next
    case False
    with cf have moved: "currentFrame s' = index" "index \<noteq> currentFrame s" by auto
    have "0 \<le> index"
    proof (rule ccontr)
      assume "\<not> 0 \<le> index"
      with assms(1) have "s' = s" by (simp add: seekToFrame_loop.simps [of index index s])
      with False show False by simp
    qed
    with assms(1) moved have "frame_at (frames s) index \<noteq> None"
      by (auto simp: seekToFrame_loop.simps [of index index s] split: option.splits)
    then have "index < int (length (frames s))"
      by (auto simp: frame_at_def split: if_splits)
    with \<open>0 \<le> index\<close> moved same show ?thesis by (simp add: valid_position_def)
  qed
qed

lemma continueReplay_body_currentFrame:
  "continueReplay_body k s = Some (b, s') \<Longrightarrow> currentFrame s' = currentFrame s"
  by (cases k)
     (auto simp: continueReplay_body.simps emit_def replayFrame_def split: if_splits option.splits)

lemma seekToFrame_body_valid:
  assumes "seekToFrame_body index cb delay s = Some (b, s')" and "valid_position s"
  shows "valid_position s'"
proof -
  let ?s2 = "(abortSeek s)\<lparr>seeks := (seeks (abortSeek s))(nextSeek (abortSeek s) := False),
                nextSeek := nextSeek (abortSeek s) + 1,
                activeSeek := Some (nextSeek (abortSeek s))\<rparr>"
  have s2: "valid_position ?s2"
    using assms(2) by (simp add: valid_position_def abortSeek_def split: option.splits)
  from assms(1) obtain startIndex s3 where
    loop: "seekToFrame_loop index index ?s2 = Some (startIndex, s3)"
    by (auto simp: seekToFrame_body_def Let_def split: option.splits)
  with assms(1) have
    "(truthy delay \<and> s' = s3\<lparr>pending := pending s3 @ [Timeout (ContinueReplay (nextSeek (abortSeek s)) startIndex index cb)]\<rparr>)
     \<or> continueReplay_body (ContinueReplay (nextSeek (abortSeek s)) startIndex index cb) s3 = Some (b, s')"
    by (auto simp: seekToFrame_body_def Let_def split: if_splits)
  then have "currentFrame s' = currentFrame s3 \<and> frames s' = frames s3"
    by (auto dest: continueReplay_body_currentFrame continueReplay_body_playback_only
             simp: playback_only_def)
  with seekToFrame_loop_valid [OF loop s2] show ?thesis
    by (simp add: valid_position_def)
qed

lemma pause_valid: "valid_position s \<Longrightarrow> valid_position (pause s)"
  by (simp add: valid_position_def pause_def Let_def emit_def abortSeek_def split: option.splits)

lemma continuePlayback_valid:
  "continuePlayback s = Some s' \<Longrightarrow> valid_position s \<Longrightarrow> valid_position s'"
proof (induction s arbitrary: s' rule: continuePlayback.induct)
  case (1 s)
  show ?case
  proof (cases "currentFrame s + 1 < int (length (frames s))")
    case False
    with "1.prems" show ?thesis
      by (auto simp: continuePlayback.simps [of s] pause_valid)
  next
    case True
    with "1.prems" obtain nxt r where
      nxt: "frame_at (frames s) (currentFrame s + 1) = Some nxt" and
      body: "seekToFrame_body (currentFrame s + 1) FrameDelayElapsed
               (num_max0 (num_sub (num_add (num_sub (timestamp nxt) (null_to_num (startVideoTimestamp s)))
                  (null_to_num (startRealTimestamp s))) (Num (clock s)))) s = Some r" and
      rest: "(if fst r then continuePlayback (snd r) else Some (snd r)) = Some s'"
      by (auto simp: continuePlayback.simps [of s] Let_def split: option.splits)
    from body "1.prems" have step: "valid_position (snd r)"
      by (cases r) (auto dest: seekToFrame_body_valid)
    show ?thesis
    proof (cases "fst r")
      case True
      with rest have "continuePlayback (snd r) = Some s'" by simp
      from "1.IH" [OF \<open>currentFrame s + 1 < int (length (frames s))\<close> nxt refl refl body True this step]
      show ?thesis .
    next
      case False
      with rest step show ?thesis by simp
    qed
  qed
qed

lemma play_valid:
  assumes "play s = Some s'" and "valid_position s"
  shows "valid_position s'"
proof (cases "\<not> isPlaying s \<and> currentFrame s + 1 < int (length (frames s))")
  case False
  with assms show ?thesis by (auto simp: play_def)
next
  case True
  with assms(1) have "\<exists>nxt :: frame. continuePlayback ((emit OnPlay s)\<lparr>startVideoTimestamp := Some (timestamp nxt),
        startRealTimestamp := Some (Num (clock (emit OnPlay s)))\<rparr>) = Some s'"
    by (auto simp: play_def Let_def split: option.splits)
  then obtain nxt :: frame where
    "continuePlayback ((emit OnPlay s)\<lparr>startVideoTimestamp := Some (timestamp nxt),
        startRealTimestamp := Some (Num (clock (emit OnPlay s)))\<rparr>) = Some s'" ..
  from continuePlayback_valid [OF this] assms(2) show ?thesis
    by (simp add: valid_position_def emit_def)
qed

lemma restorePlaybackState_valid:
  assumes "restorePlaybackState c s = Some s'" and "valid_position s"
  shows "valid_position s'"
proof -
  let ?s1 = "s\<lparr>seekCallback := None\<rparr>"
  from assms(1) obtain s3 where
    s3: "(if fst (closures s c)
          then map_option (\<lambda>s2. s2\<lparr>closures := (closures s2)(c := (False, snd (closures s c)))\<rparr>) (play ?s1)
          else Some ?s1) = Some s3" and
    s': "s' = (case snd (closures s c) of None \<Rightarrow> s3 | Some u \<Rightarrow> emit (UserCallback u) s3)"
    unfolding restorePlaybackState_unfold by (auto split: option.splits)
  have "valid_position ?s1"
    using assms(2) by (simp add: valid_position_def)
  with s3 have "valid_position s3"
    by (auto simp: valid_position_def split: if_splits dest!: play_valid)
  with s' show ?thesis
    by (auto simp: valid_position_def emit_def split: option.splits)
qed

lemma call_valid: "call cb s = Some s' \<Longrightarrow> valid_position s \<Longrightarrow> valid_position s'"
  by (cases cb) (auto dest: restorePlaybackState_valid continuePlayback_valid)

lemma continueReplay_valid:
  assumes "continueReplay k s = Some s'" and "valid_position s"
  shows "valid_position s'"
proof -
  from assms(1) obtain r where
    body: "continueReplay_body k s = Some r" and
    rest: "(if fst r then call (callback_of k) (snd r) else Some (snd r)) = Some s'"
    by (auto simp: continueReplay_def split: option.splits)
  from body have "currentFrame (snd r) = currentFrame s" "playback_only s (snd r)"
    by (cases r, auto dest: continueReplay_body_currentFrame continueReplay_body_playback_only)+
  with assms(2) have "valid_position (snd r)"
    by (simp add: playback_only_def valid_position_def)
  with rest show ?thesis
    by (auto split: if_splits dest: call_valid)
qed

lemma seekToFrame_valid:
  assumes "seekToFrame index cb delay s = Some s'" and "valid_position s"
  shows "valid_position s'"
proof -
  from assms(1) obtain r where
    body: "seekToFrame_body index cb delay s = Some r" and
    rest: "(if fst r then call cb (snd r) else Some (snd r)) = Some s'"
    by (auto simp: seekToFrame_def split: option.splits)
  from body assms(2) have "valid_position (snd r)"
    by (cases r) (auto dest: seekToFrame_body_valid)
  with rest show ?thesis
    by (auto split: if_splits dest: call_valid)
qed

lemma abortSeek_valid: "valid_position s \<Longrightarrow> valid_position (abortSeek s)"
  by (simp add: valid_position_def abortSeek_def split: option.splits)

lemma cancel_valid: "cancel s = Some s' \<Longrightarrow> valid_position s \<Longrightarrow> valid_position s'"
  by (auto simp: cancel_def split: option.splits dest: restorePlaybackState_valid abortSeek_valid)

lemma seek_valid:
  assumes "seek position userCallback s = Some s'" and "valid_position s"
  shows "valid_position s'"
proof (cases "length (frames s) = 0")
  case True
  with assms show ?thesis by (simp add: seek_def)
next
  case False
  with assms(1) obtain s1 target where
    c: "cancel s = Some s1" and
    sk: "seekToFrame target (RestorePlaybackState (nextClosure (pause s1))) (Num 0)
           ((pause s1)\<lparr>closures := (closures (pause s1))(nextClosure (pause s1) := (isPlaying s1, userCallback)),
                        nextClosure := nextClosure (pause s1) + 1,
                        seekCallback := Some (nextClosure (pause s1))\<rparr>) = Some s'"
    by (auto simp: seek_def Let_def split: option.splits)
  have "valid_position (pause s1)"
    using cancel_valid [OF c assms(2)] by (rule pause_valid)
  then have "valid_position ((pause s1)\<lparr>closures := (closures (pause s1))(nextClosure (pause s1) := (isPlaying s1, userCallback)),
                        nextClosure := nextClosure (pause s1) + 1,
                        seekCallback := Some (nextClosure (pause s1))\<rparr>)"
    by (simp add: valid_position_def)
  with seekToFrame_valid [OF sk] show ?thesis by blast
qed

lemma replayCompleted_valid:
  assumes "replayCompleted index k s = Some s'"
  shows "valid_position s'"
proof -
  from assms obtain f where
    f: "frame_at (frames s) index = Some f" and
    k: "continueReplay k
          ((if keyframe f \<and> clientState f = None
            then s\<lparr>display := display s @ [nat index], pending := pending s @ [ExportState (nat index) (display s @ [nat index])]\<rparr>
            else s\<lparr>display := display s @ [nat index]\<rparr>)\<lparr>currentFrame := index\<rparr>) = Some s'"
    by (auto simp: replayCompleted_def Let_def split: option.splits if_splits)
  from f have "0 \<le> index" "index < int (length (frames s))"
    by (auto simp: frame_at_def split: if_splits)
  then have "valid_position ((if keyframe f \<and> clientState f = None
            then s\<lparr>display := display s @ [nat index], pending := pending s @ [ExportState (nat index) (display s @ [nat index])]\<rparr>
            else s\<lparr>display := display s @ [nat index]\<rparr>)\<lparr>currentFrame := index\<rparr>)"
    by (simp add: valid_position_def)
  with continueReplay_valid [OF k] show ?thesis by blast
qed

lemma complete_valid:
  assumes "complete n s = Some s'" and "valid_position s"
  shows "valid_position s'"
proof (cases "n < length (pending s)")
  case False
  with assms show ?thesis by (simp add: complete_def)
next
  case True
  let ?s0 = "s\<lparr>pending := take n (pending s) @ drop (Suc n) (pending s)\<rparr>"
  have v0: "valid_position ?s0"
    using assms(2) by (simp add: valid_position_def)
  from True assms(1) have run: "run_task (pending s ! n) ?s0 = Some s'"
    by (simp add: complete_def)
  show ?thesis
  proof (cases "pending s ! n")
    case (ReplayRead index k)
    with run show ?thesis by (auto dest: replayCompleted_valid)
  next
    case (Timeout k)
    with run v0 show ?thesis by (auto dest: continueReplay_valid)
  next
    case (ExportState i st)
    with run v0 show ?thesis by (auto simp: storeClientState_def valid_position_def)
  qed
qed

section \<open>Properties of the frame indexer\<close>

text \<open>
  \<open>pushFrame\<close> is the part of \<open>handleInstruction\<close> that advances \<open>frameEnd\<close> over a sync
  instruction and appends its frame; \<open>keyframeDue\<close> is the test against the last keyframe.
\<close>

definition pushFrame :: "jsstring list \<Rightarrow> recording \<Rightarrow> recording" where
  "pushFrame args s =
     (let e = frameEnd s + getElementSize sync + sum_list (map getElementSize args)
      in s\<lparr>frameEnd := e,
           frames := frames s @ [Frame (parseInt (case args of [] \<Rightarrow> None | a # _ \<Rightarrow> Some a)) (frameStart s) e],
           frameStart := e\<rparr>)"

definition keyframeDue :: "recording \<Rightarrow> frame \<Rightarrow> frame \<Rightarrow> bool" where
  "keyframeDue s f k \<longleftrightarrow>
     int (frameEnd s) - int (start k) \<ge> KEYFRAME_CHAR_INTERVAL
     \<and> num_ge (num_sub (timestamp f) (timestamp k)) (Num KEYFRAME_TIME_INTERVAL)"

lemma handleInstruction_sync_unfold:
  "handleInstruction sync args s =
     (case (if frames s = [] then Some (flagKeyframe (pushFrame args s))
            else case frame_at (frames (pushFrame args s)) (int (lastKeyframe s)) of
                   None \<Rightarrow> None
                 | Some k \<Rightarrow>
                     if keyframeDue (pushFrame args s) (last (frames (pushFrame args s))) k
                     then Some (flagKeyframe (pushFrame args s)) else Some (pushFrame args s)) of
        None \<Rightarrow> None
      | Some s3 \<Rightarrow> Some (emit (OnProgress (getDuration s3) (frameEnd s3)) s3))"
  by (simp add: handleInstruction_def pushFrame_def keyframeDue_def Frame_def Let_def
           cong: option.case_cong if_cong)

lemma handleInstruction_other:
  "opcode \<noteq> sync \<Longrightarrow>
     handleInstruction opcode args s
       = Some (s\<lparr>frameEnd := frameEnd s + getElementSize opcode + sum_list (map getElementSize args)\<rparr>)"
  by (simp add: handleInstruction_def)

lemma pushFrame_fields:
  "frames (pushFrame args s) = frames s @ [Frame (parseInt (case args of [] \<Rightarrow> None | a # _ \<Rightarrow> Some a)) (frameStart s)
       (frameEnd s + getElementSize sync + sum_list (map getElementSize args))]"
  "frameEnd (pushFrame args s) = frameEnd s + getElementSize sync + sum_list (map getElementSize args)"
  "frameStart (pushFrame args s) = frameEnd (pushFrame args s)"
  "lastKeyframe (pushFrame args s) = lastKeyframe s"
  "currentFrame (pushFrame args s) = currentFrame s"
  "pending (pushFrame args s) = pending s"
  "seekCallback (pushFrame args s) = seekCallback s"
  "startVideoTimestamp (pushFrame args s) = startVideoTimestamp s"
  by (simp_all add: pushFrame_def Let_def)

lemma flagKeyframe_fields:
  "frames (flagKeyframe s) = (frames s)[length (frames s) - 1 := (frames s ! (length (frames s) - 1))\<lparr>keyframe := True\<rparr>]"
  "lastKeyframe (flagKeyframe s) = length (frames s) - 1"
  "frameEnd (flagKeyframe s) = frameEnd s"
  "frameStart (flagKeyframe s) = frameStart s"
  "currentFrame (flagKeyframe s) = currentFrame s"
  "pending (flagKeyframe s) = pending s"
  "seekCallback (flagKeyframe s) = seekCallback s"
  "startVideoTimestamp (flagKeyframe s) = startVideoTimestamp s"
  by (simp_all add: flagKeyframe_def Let_def)

lemma emit_fields:
  "frames (emit e s) = frames s"
  "lastKeyframe (emit e s) = lastKeyframe s"
  "frameEnd (emit e s) = frameEnd s"
  "frameStart (emit e s) = frameStart s"
  "currentFrame (emit e s) = currentFrame s"
  "pending (emit e s) = pending s"
  "seekCallback (emit e s) = seekCallback s"
  "startVideoTimestamp (emit e s) = startVideoTimestamp s"
  by (simp_all add: emit_def)

text \<open>What a sync instruction does to the frame table.\<close>

lemma handleInstruction_sync:
  assumes "handleInstruction sync args s = Some s'"
  shows "\<exists>kf. frames s' = frames s @
            [\<lparr>keyframe = kf, timestamp = parseInt (case args of [] \<Rightarrow> None | a # _ \<Rightarrow> Some a),
              start = frameStart s,
              end_off = frameEnd s + getElementSize sync + sum_list (map getElementSize args),
              clientState = None\<rparr>]
          \<and> lastKeyframe s' = (if kf then length (frames s) else lastKeyframe s)
          \<and> (kf \<longleftrightarrow> frames s = [] \<or>
                (\<exists>k. frame_at (frames (pushFrame args s)) (int (lastKeyframe s)) = Some k
                    \<and> keyframeDue (pushFrame args s) (last (frames (pushFrame args s))) k))"
    and "frameEnd s' = frameEnd s + getElementSize sync + sum_list (map getElementSize args)"
    and "frameStart s' = frameEnd s'"
    and "currentFrame s' = currentFrame s \<and> pending s' = pending s \<and> seekCallback s' = seekCallback s
          \<and> startVideoTimestamp s' = startVideoTimestamp s"
proof -
  let ?p = "pushFrame args s"
  from assms obtain s3 where
    s3: "(if frames s = [] then Some (flagKeyframe ?p)
          else case frame_at (frames ?p) (int (lastKeyframe s)) of
                 None \<Rightarrow> None
               | Some k \<Rightarrow> if keyframeDue ?p (last (frames ?p)) k
                           then Some (flagKeyframe ?p) else Some ?p) = Some s3" and
    s': "s' = emit (OnProgress (getDuration s3) (frameEnd s3)) s3"
    unfolding handleInstruction_sync_unfold by (auto split: option.splits)
  consider (flag) "s3 = flagKeyframe ?p"
      "frames s = [] \<or> (\<exists>k. frame_at (frames ?p) (int (lastKeyframe s)) = Some k \<and> keyframeDue ?p (last (frames ?p)) k)"
    | (plain) "s3 = ?p"
      "\<not> (frames s = [] \<or> (\<exists>k. frame_at (frames ?p) (int (lastKeyframe s)) = Some k \<and> keyframeDue ?p (last (frames ?p)) k))"
    using s3 by (auto split: if_splits option.splits)
  then have
    "(\<exists>kf. frames s' = frames s @
            [\<lparr>keyframe = kf, timestamp = parseInt (case args of [] \<Rightarrow> None | a # _ \<Rightarrow> Some a),
              start = frameStart s,
              end_off = frameEnd s + getElementSize sync + sum_list (map getElementSize args),
              clientState = None\<rparr>]
          \<and> lastKeyframe s' = (if kf then length (frames s) else lastKeyframe s)
          \<and> (kf \<longleftrightarrow> frames s = [] \<or>
                (\<exists>k. frame_at (frames ?p) (int (lastKeyframe s)) = Some k
                    \<and> keyframeDue ?p (last (frames ?p)) k)))
     \<and> frameEnd s' = frameEnd s + getElementSize sync + sum_list (map getElementSize args)
     \<and> frameStart s' = frameEnd s'
     \<and> currentFrame s' = currentFrame s \<and> pending s' = pending s \<and> seekCallback s' = seekCallback s
     \<and> startVideoTimestamp s' = startVideoTimestamp s"
  proof cases
    case flag
    have "frames s' = frames s @
            [\<lparr>keyframe = True, timestamp = parseInt (case args of [] \<Rightarrow> None | a # _ \<Rightarrow> Some a),
              start = frameStart s,
              end_off = frameEnd s + getElementSize sync + sum_list (map getElementSize args),
              clientState = None\<rparr>]"
      by (simp add: s' flag(1) emit_fields flagKeyframe_fields pushFrame_fields Frame_def)
    moreover have "lastKeyframe s' = length (frames s)"
      by (simp add: s' flag(1) emit_fields flagKeyframe_fields pushFrame_fields)
    moreover have "frameEnd s' = frameEnd s + getElementSize sync + sum_list (map getElementSize args)
       \<and> frameStart s' = frameEnd s'
       \<and> currentFrame s' = currentFrame s \<and> pending s' = pending s \<and> seekCallback s' = seekCallback s
       \<and> startVideoTimestamp s' = startVideoTimestamp s"
      by (simp add: s' flag(1) emit_fields flagKeyframe_fields pushFrame_fields)
    ultimately show ?thesis using flag(2) by auto
  next
    case plain
    have "frames s' = frames s @
            [\<lparr>keyframe = False, timestamp = parseInt (case args of [] \<Rightarrow> None | a # _ \<Rightarrow> Some a),
              start = frameStart s,
              end_off = frameEnd s + getElementSize sync + sum_list (map getElementSize args),
              clientState = None\<rparr>]"
      by (simp add: s' plain(1) emit_fields pushFrame_fields Frame_def)
    moreover have "lastKeyframe s' = lastKeyframe s"
      by (simp add: s' plain(1) emit_fields pushFrame_fields)
    moreover have "frameEnd s' = frameEnd s + getElementSize sync + sum_list (map getElementSize args)
       \<and> frameStart s' = frameEnd s'
       \<and> currentFrame s' = currentFrame s \<and> pending s' = pending s \<and> seekCallback s' = seekCallback s
       \<and> startVideoTimestamp s' = startVideoTimestamp s"
      by (simp add: s' plain(1) emit_fields pushFrame_fields)
    ultimately show ?thesis using plain(2) by auto
  qed
  then show
    "\<exists>kf. frames s' = frames s @
            [\<lparr>keyframe = kf, timestamp = parseInt (case args of [] \<Rightarrow> None | a # _ \<Rightarrow> Some a),
              start = frameStart s,
              end_off = frameEnd s + getElementSize sync + sum_list (map getElementSize args),
              clientState = None\<rparr>]
          \<and> lastKeyframe s' = (if kf then length (frames s) else lastKeyframe s)
          \<and> (kf \<longleftrightarrow> frames s = [] \<or>
                (\<exists>k. frame_at (frames (pushFrame args s)) (int (lastKeyframe s)) = Some k
                    \<and> keyframeDue (pushFrame args s) (last (frames (pushFrame args s))) k))"
    and "frameEnd s' = frameEnd s + getElementSize sync + sum_list (map getElementSize args)"
    and "frameStart s' = frameEnd s'"
    and "currentFrame s' = currentFrame s \<and> pending s' = pending s \<and> seekCallback s' = seekCallback s
          \<and> startVideoTimestamp s' = startVideoTimestamp s"
    by blast+
qed

text \<open>
  \<open>tiles a fs b\<close>: the frames \<open>fs\<close> cover the offsets from \<open>a\<close> to \<open>b\<close> without gap or
  overlap. \<open>keyframes_spaced\<close>: every keyframe ends at least \<open>KEYFRAME_CHAR_INTERVAL\<close>
  characters after the start of the keyframe before it, and is at least
  \<open>KEYFRAME_TIME_INTERVAL\<close> milliseconds later.
\<close>

fun tiles :: "nat \<Rightarrow> frame list \<Rightarrow> nat \<Rightarrow> bool" where
  "tiles a [] b = (a = b)"
| "tiles a (f # fs) b = (start f = a \<and> tiles (end_off f) fs b)"

lemma tiles_snoc: "tiles a (fs @ [f]) b \<longleftrightarrow> tiles a fs (start f) \<and> end_off f = b"
  by (induction fs arbitrary: a) auto

lemma tiles_nth:
  "tiles a fs b \<Longrightarrow> fs \<noteq> [] \<Longrightarrow>
     start (fs ! 0) = a \<and> end_off (last fs) = b
     \<and> (\<forall>i. Suc i < length fs \<longrightarrow> end_off (fs ! i) = start (fs ! Suc i))"
proof (induction fs arbitrary: a)
  case Nil
  then show ?case by simp
next
  case (Cons f fs)
  show ?case
  proof (cases "fs = []")
    case True
    with Cons.prems show ?thesis by simp
  next
    case False
    from Cons.prems have t: "tiles (end_off f) fs b" and a: "start f = a" by simp_all
    from Cons.IH [OF t False] have
      ih: "start (fs ! 0) = end_off f" "end_off (last fs) = b"
        "\<forall>i. Suc i < length fs \<longrightarrow> end_off (fs ! i) = start (fs ! Suc i)"
      by simp_all
    have "end_off ((f # fs) ! i) = start ((f # fs) ! Suc i)" if "Suc i < length (f # fs)" for i
      using that ih by (cases i) auto
    with a ih False show ?thesis by simp
  qed
qed

definition keyframes_spaced :: "frame list \<Rightarrow> bool" where
  "keyframes_spaced fs \<longleftrightarrow>
     (\<forall>a b. a < b \<and> b < length fs \<and> keyframe (fs ! a) \<and> keyframe (fs ! b)
            \<and> (\<forall>k. a < k \<and> k < b \<longrightarrow> \<not> keyframe (fs ! k))
        \<longrightarrow> int (end_off (fs ! b)) - int (start (fs ! a)) \<ge> KEYFRAME_CHAR_INTERVAL
            \<and> num_ge (num_sub (timestamp (fs ! b)) (timestamp (fs ! a))) (Num KEYFRAME_TIME_INTERVAL))"

definition indexer_invariant :: "recording \<Rightarrow> bool" where
  "indexer_invariant s \<longleftrightarrow>
     (frames s \<noteq> [] \<longrightarrow>
        keyframe (frames s ! 0) \<and> lastKeyframe s < length (frames s)
        \<and> keyframe (frames s ! lastKeyframe s)
        \<and> (\<forall>k. lastKeyframe s < k \<and> k < length (frames s) \<longrightarrow> \<not> keyframe (frames s ! k)))
     \<and> keyframes_spaced (frames s)
     \<and> tiles 0 (frames s) (frameStart s)"

lemma initial_indexer_invariant: "indexer_invariant (initial now)"
  by (simp add: indexer_invariant_def initial_def keyframes_spaced_def)

lemma keyframes_spaced_snoc_plain:
  "keyframes_spaced fs \<Longrightarrow> \<not> keyframe f \<Longrightarrow> keyframes_spaced (fs @ [f])"
  unfolding keyframes_spaced_def
proof (intro allI impI)
  fix a b
  assume old: "\<forall>a b. a < b \<and> b < length fs \<and> keyframe (fs ! a) \<and> keyframe (fs ! b)
            \<and> (\<forall>k. a < k \<and> k < b \<longrightarrow> \<not> keyframe (fs ! k))
        \<longrightarrow> int (end_off (fs ! b)) - int (start (fs ! a)) \<ge> KEYFRAME_CHAR_INTERVAL
            \<and> num_ge (num_sub (timestamp (fs ! b)) (timestamp (fs ! a))) (Num KEYFRAME_TIME_INTERVAL)"
    and nk: "\<not> keyframe f"
    and h: "a < b \<and> b < length (fs @ [f]) \<and> keyframe ((fs @ [f]) ! a) \<and> keyframe ((fs @ [f]) ! b)
            \<and> (\<forall>k. a < k \<and> k < b \<longrightarrow> \<not> keyframe ((fs @ [f]) ! k))"
  from h nk have b: "b < length fs"
    by (cases "b = length fs") auto
  with h have "a < b \<and> b < length fs \<and> keyframe (fs ! a) \<and> keyframe (fs ! b)
            \<and> (\<forall>k. a < k \<and> k < b \<longrightarrow> \<not> keyframe (fs ! k))"
    by (auto simp: nth_append)
  with old have "int (end_off (fs ! b)) - int (start (fs ! a)) \<ge> KEYFRAME_CHAR_INTERVAL
            \<and> num_ge (num_sub (timestamp (fs ! b)) (timestamp (fs ! a))) (Num KEYFRAME_TIME_INTERVAL)"
    by blast
  with b h show "int (end_off ((fs @ [f]) ! b)) - int (start ((fs @ [f]) ! a)) \<ge> KEYFRAME_CHAR_INTERVAL
            \<and> num_ge (num_sub (timestamp ((fs @ [f]) ! b)) (timestamp ((fs @ [f]) ! a))) (Num KEYFRAME_TIME_INTERVAL)"
    by (simp add: nth_append)
qed

lemma keyframes_spaced_snoc_flagged:
  assumes "keyframes_spaced fs"
    and lk: "lk < length fs" "keyframe (fs ! lk)" "\<forall>k. lk < k \<and> k < length fs \<longrightarrow> \<not> keyframe (fs ! k)"
    and due: "int (end_off f) - int (start (fs ! lk)) \<ge> KEYFRAME_CHAR_INTERVAL"
      "num_ge (num_sub (timestamp f) (timestamp (fs ! lk))) (Num KEYFRAME_TIME_INTERVAL)"
  shows "keyframes_spaced (fs @ [f])"
  unfolding keyframes_spaced_def
proof (intro allI impI)
  fix a b
  assume h: "a < b \<and> b < length (fs @ [f]) \<and> keyframe ((fs @ [f]) ! a) \<and> keyframe ((fs @ [f]) ! b)
            \<and> (\<forall>k. a < k \<and> k < b \<longrightarrow> \<not> keyframe ((fs @ [f]) ! k))"
  show "int (end_off ((fs @ [f]) ! b)) - int (start ((fs @ [f]) ! a)) \<ge> KEYFRAME_CHAR_INTERVAL
            \<and> num_ge (num_sub (timestamp ((fs @ [f]) ! b)) (timestamp ((fs @ [f]) ! a))) (Num KEYFRAME_TIME_INTERVAL)"
  proof (cases "b = length fs")
    case True
    with h have a: "a < length fs" "keyframe (fs ! a)" and
      between: "\<forall>k. a < k \<and> k < length fs \<longrightarrow> \<not> keyframe (fs ! k)"
      by (auto simp: nth_append)
    have "a = lk"
    proof (rule ccontr)
      assume "a \<noteq> lk"
      then consider "a < lk" | "lk < a" by linarith
      then show False
      proof cases
        case 1
        with between lk show False by blast
      next
        case 2
        with lk(3) a show False by blast
      qed
    qed
    with True due a show ?thesis by (simp add: nth_append)
  next
    case False
    with h have b: "b < length fs" by simp
    with h have "a < b \<and> b < length fs \<and> keyframe (fs ! a) \<and> keyframe (fs ! b)
            \<and> (\<forall>k. a < k \<and> k < b \<longrightarrow> \<not> keyframe (fs ! k))"
      by (auto simp: nth_append)
    with assms(1) have "int (end_off (fs ! b)) - int (start (fs ! a)) \<ge> KEYFRAME_CHAR_INTERVAL
            \<and> num_ge (num_sub (timestamp (fs ! b)) (timestamp (fs ! a))) (Num KEYFRAME_TIME_INTERVAL)"
      unfolding keyframes_spaced_def by blast
    with b h show ?thesis by (simp add: nth_append)
  qed
qed

definition instruction_size :: "instruction \<Rightarrow> nat" where
  "instruction_size i = getElementSize (fst i) + sum_list (map getElementSize (snd i))"

definition sync_timestamps :: "instruction list \<Rightarrow> jsnum list" where
  "sync_timestamps is =
     map (\<lambda>i. parseInt (case snd i of [] \<Rightarrow> None | a # _ \<Rightarrow> Some a)) (filter (\<lambda>i. fst i = sync) is)"

lemma handleInstruction_indexer:
  assumes inv: "indexer_invariant s"
  shows "\<exists>s'. handleInstruction opcode args s = Some s' \<and> indexer_invariant s'
    \<and> frameEnd s' = frameEnd s + instruction_size (opcode, args)
    \<and> map timestamp (frames s') = map timestamp (frames s) @ sync_timestamps [(opcode, args)]
    \<and> (opcode = sync \<longrightarrow> frameStart s' = frameEnd s')"
proof (cases "opcode = sync")
  case False
  then show ?thesis
    using inv
    by (simp add: handleInstruction_other indexer_invariant_def instruction_size_def sync_timestamps_def)
next
  case True
  let ?p = "pushFrame args s"
  have total: "\<exists>s'. handleInstruction sync args s = Some s'"
  proof (cases "frames s = []")
    case True
    then show ?thesis by (simp add: handleInstruction_sync_unfold)
  next
    case False
    with inv have "lastKeyframe s < length (frames s)"
      by (simp add: indexer_invariant_def)
    then have "frame_at (frames ?p) (int (lastKeyframe s)) = Some (frames s ! lastKeyframe s)"
      by (simp add: frame_at_def pushFrame_fields nth_append)
    with False show ?thesis by (simp add: handleInstruction_sync_unfold)
  qed
  then obtain s' where s': "handleInstruction sync args s = Some s'" by blast
  let ?ts = "parseInt (case args of [] \<Rightarrow> None | a # _ \<Rightarrow> Some a)"
  let ?e = "frameEnd s + getElementSize sync + sum_list (map getElementSize args)"
  from handleInstruction_sync [OF s'] obtain kf where
    fr: "frames s' = frames s @ [\<lparr>keyframe = kf, timestamp = ?ts, start = frameStart s, end_off = ?e, clientState = None\<rparr>]" and
    lk: "lastKeyframe s' = (if kf then length (frames s) else lastKeyframe s)" and
    kf: "kf \<longleftrightarrow> frames s = [] \<or>
           (\<exists>k. frame_at (frames ?p) (int (lastKeyframe s)) = Some k \<and> keyframeDue ?p (last (frames ?p)) k)" and
    fe: "frameEnd s' = ?e" and fs: "frameStart s' = frameEnd s'"
    by blast
  let ?f = "\<lparr>keyframe = kf, timestamp = ?ts, start = frameStart s, end_off = ?e, clientState = None\<rparr>"
  from inv have old:
    "frames s \<noteq> [] \<Longrightarrow> keyframe (frames s ! 0) \<and> lastKeyframe s < length (frames s)
        \<and> keyframe (frames s ! lastKeyframe s)
        \<and> (\<forall>k. lastKeyframe s < k \<and> k < length (frames s) \<longrightarrow> \<not> keyframe (frames s ! k))"
    and sp: "keyframes_spaced (frames s)" and ti: "tiles 0 (frames s) (frameStart s)"
    by (simp_all add: indexer_invariant_def)
  have tiles': "tiles 0 (frames s') (frameStart s')"
    using ti by (simp add: fr fs fe tiles_snoc)
  have spaced': "keyframes_spaced (frames s')"
  proof (cases kf)
    case False
    with sp show ?thesis by (simp add: fr keyframes_spaced_snoc_plain)
  next
    case True
    show ?thesis
    proof (cases "frames s = []")
      case True
      then show ?thesis by (simp add: fr keyframes_spaced_def)
    next
      case False
      with kf \<open>kf\<close> obtain k where
        k: "frame_at (frames ?p) (int (lastKeyframe s)) = Some k" and
        due: "keyframeDue ?p (last (frames ?p)) k"
        by blast
      from old [OF False] k have "k = frames s ! lastKeyframe s"
        by (simp add: frame_at_def pushFrame_fields nth_append)
      with due have
        "int (end_off ?f) - int (start (frames s ! lastKeyframe s)) \<ge> KEYFRAME_CHAR_INTERVAL"
        "num_ge (num_sub (timestamp ?f) (timestamp (frames s ! lastKeyframe s))) (Num KEYFRAME_TIME_INTERVAL)"
        by (simp_all add: keyframeDue_def pushFrame_fields Frame_def)
      with sp old [OF False] show ?thesis
        unfolding fr by (intro keyframes_spaced_snoc_flagged) auto
    qed
  qed
  have last': "keyframe (frames s' ! 0) \<and> lastKeyframe s' < length (frames s')
        \<and> keyframe (frames s' ! lastKeyframe s')
        \<and> (\<forall>k. lastKeyframe s' < k \<and> k < length (frames s') \<longrightarrow> \<not> keyframe (frames s' ! k))"
  proof (cases kf)
    case True
    with old kf show ?thesis
      by (cases "frames s = []") (auto simp: fr lk nth_append)
  next
    case False
    with kf have "frames s \<noteq> []" by blast
    from old [OF this] False show ?thesis
      by (auto simp: fr lk nth_append less_Suc_eq)
  qed
  have "map timestamp (frames s') = map timestamp (frames s) @ sync_timestamps [(sync, args)]"
    by (simp add: fr sync_timestamps_def)
  with tiles' spaced' last' fe fs s' True show ?thesis
    by (simp add: indexer_invariant_def instruction_size_def)
qed

lemma parseInstructions_indexer:
  "indexer_invariant s \<Longrightarrow>
   \<exists>s'. parseInstructions is s = Some s' \<and> indexer_invariant s'
    \<and> frameEnd s' = frameEnd s + sum_list (map instruction_size is)
    \<and> map timestamp (frames s') = map timestamp (frames s) @ sync_timestamps is
    \<and> (is \<noteq> [] \<and> fst (last is) = sync \<longrightarrow> frameStart s' = frameEnd s')"
proof (induction "is" arbitrary: s)
  case Nil
  then show ?case by (simp add: sync_timestamps_def)
next
  case (Cons i "is")
  from handleInstruction_indexer [OF Cons.prems, of "fst i" "snd i"] obtain s1 where
    s1: "handleInstruction (fst i) (snd i) s = Some s1" "indexer_invariant s1"
      "frameEnd s1 = frameEnd s + instruction_size i"
      "map timestamp (frames s1) = map timestamp (frames s) @ sync_timestamps [i]"
      "fst i = sync \<longrightarrow> frameStart s1 = frameEnd s1"
    by auto
  from Cons.IH [OF s1(2)] obtain s' where
    s': "parseInstructions is s1 = Some s'" "indexer_invariant s'"
      "frameEnd s' = frameEnd s1 + sum_list (map instruction_size is)"
      "map timestamp (frames s') = map timestamp (frames s1) @ sync_timestamps is"
      "is \<noteq> [] \<and> fst (last is) = sync \<longrightarrow> frameStart s' = frameEnd s'"
    by auto
  have "sync_timestamps (i # is) = sync_timestamps [i] @ sync_timestamps is"
    by (simp add: sync_timestamps_def)
  moreover have "frameStart s' = frameEnd s'" if "fst (last (i # is)) = sync"
  proof (cases "is = []")
    case True
    with that s1 s' show ?thesis by simp
  next
    case False
    with that s' show ?thesis by simp
  qed
  ultimately show ?case
    using s1 s' by simp
qed

text \<open>
  The size of the blob, for a blob of single-byte characters: the sum of the element
  sizes of its instructions.
\<close>

definition ascii_only :: "instruction list \<Rightarrow> bool" where
  "ascii_only is \<longleftrightarrow> (\<forall>i \<in> set is. \<forall>e \<in> set (fst i # snd i). \<forall>c \<in> set e. c < 128)"

lemma utf8_size_append: "utf8_size (xs @ ys) = utf8_size xs + utf8_size ys"
  by (simp add: utf8_size_def)

lemma utf8_size_ascii: "\<forall>c \<in> set s. c < 128 \<Longrightarrow> utf8_size s = length s"
  by (induction s) (simp_all add: utf8_size_def utf8_bytes_def)

lemma getElementSize_ascii_only:
  assumes "\<forall>c \<in> set e. c < 128"
  shows "getElementSize e = length e + digits (length e) + 2"
proof -
  from assms have "\<forall>c \<in> set e. c < 65536" by auto
  then show ?thesis by (simp add: getElementSize_units js_length_bmp)
qed

lemma utf8_size_encode_element:
  assumes "\<forall>c \<in> set e. c < 128"
  shows "utf8_size (encode_element e @ [t]) = getElementSize e + utf8_bytes t - 1"
proof -
  have "\<forall>c \<in> set (decimal (length e)). c < 128"
    using decimal_chars by fastforce
  then have d: "utf8_size (decimal (length e)) = digits (length e)"
    by (simp add: utf8_size_ascii digits_def)
  have e: "utf8_size e = length e"
    using assms by (rule utf8_size_ascii)
  have "utf8_size (encode_element e @ [t])
      = utf8_size (decimal (length e)) + utf8_bytes 46 + utf8_size e + utf8_bytes t"
    by (simp add: encode_element_def utf8_size_def)
  with d e assms show ?thesis
    by (simp add: getElementSize_ascii_only utf8_bytes_def)
qed

lemma utf8_size_encode_elements:
  "\<forall>x \<in> set (e # es). \<forall>c \<in> set x. c < 128 \<Longrightarrow>
     utf8_size (encode_elements (e # es)) = sum_list (map getElementSize (e # es))"
proof (induction es arbitrary: e)
  case Nil
  then have "utf8_size (encode_element e @ [59]) = getElementSize e + utf8_bytes 59 - 1"
    by (intro utf8_size_encode_element) simp
  then show ?case by (simp add: utf8_bytes_def)
next
  case (Cons e' es)
  then have "utf8_size (encode_element e @ [44]) = getElementSize e + utf8_bytes 44 - 1"
    by (intro utf8_size_encode_element) simp
  moreover have "utf8_size (encode_elements (e' # es)) = sum_list (map getElementSize (e' # es))"
    using Cons.prems by (intro Cons.IH) simp
  moreover have "utf8_size (encode_element e @ [44] @ encode_elements (e' # es))
      = utf8_size (encode_element e @ [44]) + utf8_size (encode_elements (e' # es))"
    using utf8_size_append [of "encode_element e @ [44]" "encode_elements (e' # es)"] by simp
  ultimately show ?case by (simp add: utf8_bytes_def)
qed

lemma utf8_size_encode_blob:
  "ascii_only is \<Longrightarrow> utf8_size (encode_blob is) = sum_list (map instruction_size is)"
proof (induction "is")
  case Nil
  then show ?case by (simp add: encode_blob_def utf8_size_def)
next
  case (Cons i "is")
  from Cons.prems have "\<forall>x \<in> set (fst i # snd i). \<forall>c \<in> set x. c < 128" and rest: "ascii_only is"
    by (simp_all add: ascii_only_def)
  then have "utf8_size (encode_instruction i) = instruction_size i"
    unfolding encode_instruction_def
    by (simp only: utf8_size_encode_elements) (simp add: instruction_size_def)
  with Cons.IH [OF rest] show ?case
    by (simp add: encode_blob_def utf8_size_append)
qed

lemma js_length_replicate: "js_length (replicate n c) = n * utf16_units c"
  by (induction n) (simp_all add: js_length_def)

lemma getElementSize_nop: "getElementSize (ascii ''nop'') = 6"
  by (simp add: getElementSize_units js_length_ascii digits_less10)

section \<open>Recordings used as examples\<close>

text \<open>
  \<open>trailing_nop\<close> is the blob \<open>4.sync,1.0;3.nop;\<close>, \<open>decreasing_syncs\<close> the blob
  \<open>4.sync,1.5;4.sync,1.0;\<close>, and \<open>two_byte_character\<close> the blob \<open>4.name,1.X;4.sync,1.0;\<close>
  where \<open>X\<close> is U+00E9, two bytes in UTF-8.
\<close>

definition trailing_nop :: "instruction list" where
  "trailing_nop = [(sync, [decimal 0]), (ascii ''nop'', [])]"

definition decreasing_syncs :: "instruction list" where
  "decreasing_syncs = [(sync, [decimal 5]), (sync, [decimal 0])]"

definition two_byte_character :: "instruction list" where
  "two_byte_character = [(ascii ''name'', [[233]]), (sync, [decimal 0])]"

lemma decimal_digit: "n < 10 \<Longrightarrow> decimal n = [48 + n]"
  by (simp add: decimal.simps [of n])

lemma sync_ascii: "\<forall>c \<in> set sync. c < 128"
  by (simp add: sync_def ascii_def)

lemma decimal_ascii: "\<forall>c \<in> set (decimal n). c < 128"
  using decimal_chars by fastforce

lemma nop_not_sync: "ascii ''nop'' \<noteq> sync"
  by (simp add: sync_def ascii_def)

lemma name_not_sync: "ascii ''name'' \<noteq> sync"
  by (simp add: sync_def ascii_def)

lemma getElementSize_name: "getElementSize (ascii ''name'') = 7"
  by (simp add: getElementSize_units js_length_ascii digits_less10)

lemma getElementSize_233: "getElementSize [233] = 4"
  by (simp add: getElementSize_units js_length_def utf16_units_def digits_less10)

text \<open>A value of \<open>n\<close> letters \<open>a\<close>.\<close>

definition payload :: "nat \<Rightarrow> jsstring" where
  "payload n = replicate n 97"

lemma getElementSize_payload: "getElementSize (payload n) = n + digits n + 2"
  by (simp add: payload_def getElementSize_units js_length_replicate utf16_units_def)

text \<open>
  The claimed spacing, between the starts of two consecutive keyframes of which the first
  is not frame 0.
\<close>

definition keyframe_starts_spaced :: "frame list \<Rightarrow> bool" where
  "keyframe_starts_spaced fs \<longleftrightarrow>
     (\<forall>a b. a < b \<and> b < length fs \<and> a \<noteq> 0 \<and> keyframe (fs ! a) \<and> keyframe (fs ! b)
            \<and> (\<forall>k. a < k \<and> k < b \<longrightarrow> \<not> keyframe (fs ! k))
        \<longrightarrow> int (start (fs ! b)) - int (start (fs ! a)) \<ge> 16384
            \<and> num_ge (num_sub (timestamp (fs ! b)) (timestamp (fs ! a))) (Num 5000))"

definition long_frame :: "instruction list" where
  "long_frame = [(sync, [decimal 0]), (ascii ''nop'', [payload 16400]), (sync, [decimal 5000])]"

definition short_frame_long_end :: "instruction list" where
  "short_frame_long_end =
     [(sync, [decimal 0]), (ascii ''nop'', [payload 16353]), (sync, [decimal 5000]),
      (sync, [decimal 10000])]"

section \<open>Invariants of the reachable states\<close>

text \<open>
  In every reachable state the position is inside the frame table, a recording without
  frames has nothing waiting, no seek callback and no play run, a snapshot is stored
  only on a keyframe, and a snapshot is requested only for a keyframe.
\<close>

definition engine_invariant :: "recording \<Rightarrow> bool" where
  "engine_invariant s \<longleftrightarrow>
     valid_position s
     \<and> (frames s = [] \<longrightarrow> pending s = [] \<and> seekCallback s = None \<and> startVideoTimestamp s = None)
     \<and> (\<forall>f \<in> set (frames s). clientState f \<noteq> None \<longrightarrow> keyframe f)
     \<and> (\<forall>(i, st) \<in> set (exports (pending s)). i < length (frames s) \<and> keyframe (frames s ! i))"

lemma engine_step_invariant:
  assumes "engine_invariant s" and "engine_step s s'" and "valid_position s'"
    and "frames s = [] \<Longrightarrow> pending s' = [] \<and> seekCallback s' = None \<and> startVideoTimestamp s' = None"
  shows "engine_invariant s'"
  using assms by (auto simp: engine_invariant_def engine_step_def)

lemma play_empty: "frames s = [] \<Longrightarrow> valid_position s \<Longrightarrow> play s = Some s"
  by (simp add: play_def valid_position_def)

lemma seek_empty: "frames s = [] \<Longrightarrow> seek position userCallback s = Some s"
  by (simp add: seek_def)

lemma cancel_idle: "seekCallback s = None \<Longrightarrow> cancel s = Some s"
  by (simp add: cancel_def)

lemma handleInstruction_result:
  assumes "handleInstruction opcode args s = Some s'"
  shows "currentFrame s' = currentFrame s \<and> pending s' = pending s \<and> seekCallback s' = seekCallback s
    \<and> startVideoTimestamp s' = startVideoTimestamp s
    \<and> (frames s' = frames s \<or> (\<exists>f. frames s' = frames s @ [f] \<and> clientState f = None))"
proof (cases "opcode = sync")
  case True
  with assms have "handleInstruction sync args s = Some s'" by simp
  from handleInstruction_sync [OF this] show ?thesis by auto
next
  case False
  with assms show ?thesis by (auto simp: handleInstruction_other)
qed

lemma handleInstruction_invariant:
  assumes "handleInstruction opcode args s = Some s'" and "engine_invariant s"
  shows "engine_invariant s'"
proof -
  from handleInstruction_result [OF assms(1)] have
    same: "currentFrame s' = currentFrame s" "pending s' = pending s" "seekCallback s' = seekCallback s"
      "startVideoTimestamp s' = startVideoTimestamp s" and
    fr: "frames s' = frames s \<or> (\<exists>f. frames s' = frames s @ [f] \<and> clientState f = None)"
    by simp_all
  from fr show ?thesis
  proof
    assume "frames s' = frames s"
    with same assms(2) show ?thesis
      by (simp add: engine_invariant_def valid_position_def)
  next
    assume "\<exists>f. frames s' = frames s @ [f] \<and> clientState f = None"
    then obtain f where f: "frames s' = frames s @ [f]" "clientState f = None" by blast
    with same assms(2) show ?thesis
      by (auto simp: engine_invariant_def valid_position_def nth_append)
  qed
qed

lemma exports_Cons: "exports (t # ts) = exports [t] @ exports ts"
  using exports_append [of "[t]" ts] by simp

lemma exports_remove:
  assumes "n < length ts"
  shows "set (exports (take n ts @ drop (Suc n) ts)) \<subseteq> set (exports ts)"
    and "set (exports [ts ! n]) \<subseteq> set (exports ts)"
proof -
  from assms have "ts = take n ts @ ts ! n # drop (Suc n) ts"
    by (rule id_take_nth_drop)
  then have "exports ts = exports (take n ts) @ exports [ts ! n] @ exports (drop (Suc n) ts)"
    by (metis exports_Cons exports_append)
  then show "set (exports (take n ts @ drop (Suc n) ts)) \<subseteq> set (exports ts)"
    and "set (exports [ts ! n]) \<subseteq> set (exports ts)"
    by auto
qed

lemma replayFailed_result:
  "replayFailed n d s = s
   \<or> (n < length (pending s) \<and> (\<exists>index k. pending s ! n = ReplayRead index k)
      \<and> replayFailed n d s
          = parseError (s\<lparr>pending := take n (pending s) @ drop (Suc n) (pending s), display := d\<rparr>))"
  by (auto simp: replayFailed_def split: task.splits)

lemma replayFailed_exports:
  "frames (replayFailed n d s) = frames s \<and> exports (pending (replayFailed n d s)) = exports (pending s)"
proof -
  from replayFailed_result [of n d s] show ?thesis
  proof
    assume "replayFailed n d s = s"
    then show ?thesis by simp
  next
    assume "n < length (pending s) \<and> (\<exists>index k. pending s ! n = ReplayRead index k)
      \<and> replayFailed n d s
          = parseError (s\<lparr>pending := take n (pending s) @ drop (Suc n) (pending s), display := d\<rparr>)"
    then obtain index k where n: "n < length (pending s)" and t: "pending s ! n = ReplayRead index k"
      and r: "replayFailed n d s
          = parseError (s\<lparr>pending := take n (pending s) @ drop (Suc n) (pending s), display := d\<rparr>)"
      by blast
    from n have "pending s = take n (pending s) @ pending s ! n # drop (Suc n) (pending s)"
      by (rule id_take_nth_drop)
    then have "exports (pending s)
        = exports (take n (pending s)) @ exports [pending s ! n] @ exports (drop (Suc n) (pending s))"
      by (metis exports_Cons exports_append)
    with t show ?thesis by (simp add: r parseError_def emit_def)
  qed
qed

lemma replayFailed_invariant:
  assumes "engine_invariant s"
  shows "engine_invariant (replayFailed n d s)"
proof -
  from replayFailed_result [of n d s] show ?thesis
  proof
    assume "replayFailed n d s = s"
    with assms show ?thesis by simp
  next
    assume r: "n < length (pending s) \<and> (\<exists>index k. pending s ! n = ReplayRead index k)
      \<and> replayFailed n d s
          = parseError (s\<lparr>pending := take n (pending s) @ drop (Suc n) (pending s), display := d\<rparr>)"
    with assms have "frames s \<noteq> []" by (auto simp: engine_invariant_def)
    moreover have "frames (replayFailed n d s) = frames s" "currentFrame (replayFailed n d s) = currentFrame s"
      using r by (simp_all add: parseError_def emit_def)
    ultimately show ?thesis
      using assms replayFailed_exports [of n d s]
      by (simp add: engine_invariant_def valid_position_def)
  qed
qed

lemma complete_invariant:
  assumes "complete n s = Some s'" and inv: "engine_invariant s"
  shows "engine_invariant s'"
proof (cases "n < length (pending s)")
  case False
  with assms show ?thesis by (simp add: complete_def)
next
  case n: True
  let ?s0 = "s\<lparr>pending := take n (pending s) @ drop (Suc n) (pending s)\<rparr>"
  from inv n have ne: "frames s \<noteq> []"
    by (auto simp: engine_invariant_def)
  have v': "valid_position s'"
    using complete_valid [OF assms(1)] inv by (simp add: engine_invariant_def)
  from n assms(1) have run: "run_task (pending s ! n) ?s0 = Some s'"
    by (simp add: complete_def)
  from inv have
    snap: "\<forall>f \<in> set (frames s). clientState f \<noteq> None \<longrightarrow> keyframe f" and
    exp: "\<forall>(i, st) \<in> set (exports (pending s)). i < length (frames s) \<and> keyframe (frames s ! i)"
    by (simp_all add: engine_invariant_def)
  from exp exports_remove(1) [OF n] have
    exp0: "\<forall>(i, st) \<in> set (exports (pending ?s0)). i < length (frames s) \<and> keyframe (frames s ! i)"
    by auto
  show ?thesis
  proof (cases "pending s ! n")
    case (ReplayRead index k)
    with run have "replayCompleted index k ?s0 = Some s'" by simp
    from replayCompleted_result [OF this] have
      fr: "frames s' = frames s" and
      ex: "exports (pending s') = exports (pending ?s0)
         \<or> (\<exists>st. exports (pending s') = exports (pending ?s0) @ [(nat index, st)]
              \<and> 0 \<le> index \<and> nat index < length (frames s) \<and> keyframe (frames s ! nat index))"
      by simp_all
    from ex exp0 have "\<forall>(i, st) \<in> set (exports (pending s')). i < length (frames s) \<and> keyframe (frames s ! i)"
      by auto
    with fr snap v' ne show ?thesis
      by (simp add: engine_invariant_def)
  next
    case (Timeout k)
    with run have "continueReplay k ?s0 = Some s'" by simp
    from continueReplay_engine_step [OF this] have
      "frames s' = frames s" "exports (pending s') = exports (pending ?s0)"
      by (simp_all add: engine_step_def)
    with exp0 snap v' ne show ?thesis
      by (simp add: engine_invariant_def)
  next
    case (ExportState i st)
    with run have s': "s' = storeClientState i st ?s0" by simp
    from ExportState exports_remove(2) [OF n] exp have i: "i < length (frames s)" "keyframe (frames s ! i)"
      by auto
    have fr: "frames s' = (frames s)[i := (frames s ! i)\<lparr>clientState := Some st\<rparr>]"
      and pe: "pending s' = pending ?s0"
      by (simp_all add: s' storeClientState_def)
    have kf: "keyframe (frames s' ! j) = keyframe (frames s ! j)" if "j < length (frames s)" for j
      using that by (cases "j = i") (simp_all add: fr)
    have "\<forall>f \<in> set (frames s'). clientState f \<noteq> None \<longrightarrow> keyframe f"
    proof
      fix f assume "f \<in> set (frames s')"
      then have "f = (frames s ! i)\<lparr>clientState := Some st\<rparr> \<or> f \<in> set (frames s)"
        unfolding fr using set_update_subset_insert by fastforce
      with snap i show "clientState f \<noteq> None \<longrightarrow> keyframe f" by auto
    qed
    moreover have "\<forall>(j, st') \<in> set (exports (pending s')). j < length (frames s') \<and> keyframe (frames s' ! j)"
      using exp0 kf by (auto simp: pe fr)
    moreover have "frames s' \<noteq> []"
      using ne by (simp add: fr)
    ultimately show ?thesis
      using v' by (simp add: engine_invariant_def)
  qed
qed

lemma reachable_invariant: "reachable s \<Longrightarrow> engine_invariant s"
proof (induction rule: reachable.induct)
  case (r_initial now)
  show ?case
    by (simp add: engine_invariant_def valid_position_def initial_def)
next
  case (r_instruction s opcode args s')
  then show ?case by (blast intro: handleInstruction_invariant)
next
  case (r_loaded s onload)
  then show ?case
    by (simp add: engine_invariant_def valid_position_def recordingLoaded_def emit_def)
next
  case (r_error s)
  then show ?case
    by (simp add: engine_invariant_def valid_position_def parseError_def emit_def)
next
  case (r_failed s n d)
  then show ?case by (simp add: replayFailed_invariant)
next
  case (r_clock s now)
  then show ?case
    by (simp add: engine_invariant_def valid_position_def)
next
  case (r_play s s')
  then have inv: "engine_invariant s" and p: "play s = Some s'" by simp_all
  from inv have v: "valid_position s" by (simp add: engine_invariant_def)
  show ?case
  proof (rule engine_step_invariant [OF inv])
    show "engine_step s s'"
      using p by (blast intro: play_playback_only playback_only_engine_step)
    show "valid_position s'"
      using p v by (rule play_valid)
    show "pending s' = [] \<and> seekCallback s' = None \<and> startVideoTimestamp s' = None" if "frames s = []"
      using that p play_empty [OF that v] inv by (simp add: engine_invariant_def)
  qed
next
  case (r_pause s)
  then have inv: "engine_invariant s" by simp
  show ?case
  proof (rule engine_step_invariant [OF inv])
    show "engine_step s (pause s)"
      by (simp add: pause_playback_only playback_only_engine_step)
    show "valid_position (pause s)"
      using inv by (simp add: engine_invariant_def pause_valid)
    show "pending (pause s) = [] \<and> seekCallback (pause s) = None \<and> startVideoTimestamp (pause s) = None"
      if "frames s = []"
      using that inv
      by (simp add: engine_invariant_def pause_def Let_def emit_def abortSeek_def isPlaying_def
               split: option.splits)
  qed
next
  case (r_seek s position userCallback s')
  then have inv: "engine_invariant s" and p: "seek position userCallback s = Some s'" by simp_all
  from inv have v: "valid_position s" by (simp add: engine_invariant_def)
  show ?case
  proof (rule engine_step_invariant [OF inv])
    show "engine_step s s'"
      using p by (rule seek_engine_step)
    show "valid_position s'"
      using p v by (rule seek_valid)
    show "pending s' = [] \<and> seekCallback s' = None \<and> startVideoTimestamp s' = None" if "frames s = []"
      using that p seek_empty [OF that, of position userCallback] inv by (simp add: engine_invariant_def)
  qed
next
  case (r_cancel s s')
  then have inv: "engine_invariant s" and p: "cancel s = Some s'" by simp_all
  from inv have v: "valid_position s" by (simp add: engine_invariant_def)
  show ?case
  proof (rule engine_step_invariant [OF inv])
    show "engine_step s s'"
      using p by (rule cancel_engine_step)
    show "valid_position s'"
      using p v by (rule cancel_valid)
    show "pending s' = [] \<and> seekCallback s' = None \<and> startVideoTimestamp s' = None" if "frames s = []"
    proof -
      from that inv have "seekCallback s = None" by (simp add: engine_invariant_def)
      from cancel_idle [OF this] p that inv show ?thesis by (simp add: engine_invariant_def)
    qed
  qed
next
  case (r_abort s)
  then show ?case
    by (simp add: engine_invariant_def valid_position_def abort_def emit_def)
next
  case (r_complete s n s')
  then show ?case by (blast intro: complete_invariant)
qed

subsection \<open>The engine does not throw\<close>

lemma seekToFrame_loop_total:
  "startIndex < int (length (frames s)) \<Longrightarrow>
     \<exists>r. seekToFrame_loop index startIndex s = Some r \<and> (- 1 \<le> startIndex \<longrightarrow> - 1 \<le> fst r)"
proof (induction index startIndex s rule: seekToFrame_loop.induct)
  case (1 index startIndex s)
  show ?case
  proof (cases "startIndex \<ge> 0 \<and> startIndex \<noteq> currentFrame s")
    case False
    then show ?thesis
      by (auto simp: seekToFrame_loop.simps [of index startIndex s])
  next
    case True
    with "1.prems" have fa: "frame_at (frames s) startIndex = Some (frames s ! nat startIndex)"
      by (simp add: frame_at_def)
    show ?thesis
    proof (cases "clientState (frames s ! nat startIndex)")
      case (Some st)
      with True fa show ?thesis
        by (simp add: seekToFrame_loop.simps [of index startIndex s])
    next
      case None
      from True "1.prems" have "startIndex - 1 < int (length (frames s))" by simp
      from "1.IH" [OF _ _ fa None this] True
      obtain r where "seekToFrame_loop index (startIndex - 1) s = Some r" "- 1 \<le> fst r"
        by auto
      with True fa None show ?thesis
        by (simp add: seekToFrame_loop.simps [of index startIndex s])
    qed
  qed
qed

lemma continueReplay_body_total:
  assumes "valid_position s" and "- 1 \<le> startIndex" and "index < int (length (frames s))"
  shows "\<exists>r. continueReplay_body (ContinueReplay t startIndex index cb) s = Some r"
proof -
  have seek: "frame_at (frames s) (currentFrame s) \<noteq> None" if "startIndex < currentFrame s"
    using that assms by (simp add: frame_at_def valid_position_def)
  have replay: "frame_at (frames s) (currentFrame s + 1) \<noteq> None" if "currentFrame s < index"
    using that assms by (simp add: frame_at_def valid_position_def)
  from seek replay show ?thesis
    by (auto simp: continueReplay_body.simps emit_def replayFrame_def split: option.splits)
qed

lemma seekToFrame_body_total:
  assumes v: "valid_position s" and i: "- 1 \<le> index" "index < int (length (frames s))"
  shows "\<exists>r. seekToFrame_body index cb delay s = Some r"
proof -
  let ?s2 = "(abortSeek s)\<lparr>seeks := (seeks (abortSeek s))(nextSeek (abortSeek s) := False),
                nextSeek := nextSeek (abortSeek s) + 1,
                activeSeek := Some (nextSeek (abortSeek s))\<rparr>"
  have v2: "valid_position ?s2" and f2: "frames ?s2 = frames s"
    using v by (simp_all add: valid_position_def abortSeek_def split: option.splits)
  from seekToFrame_loop_total [of index ?s2 index] i f2 obtain startIndex s3 where
    loop: "seekToFrame_loop index index ?s2 = Some (startIndex, s3)" and si: "- 1 \<le> startIndex"
    by auto
  from seekToFrame_loop_valid [OF loop v2] seekToFrame_loop_result [OF loop] f2
  have "valid_position s3" "frames s3 = frames s" by simp_all
  with continueReplay_body_total [of s3 startIndex index "nextSeek (abortSeek s)" cb] si i
  obtain r where "continueReplay_body (ContinueReplay (nextSeek (abortSeek s)) startIndex index cb) s3 = Some r"
    by auto
  with loop show ?thesis
    by (cases "truthy delay") (auto simp: seekToFrame_body_def Let_def)
qed

lemma continuePlayback_total:
  "valid_position s \<Longrightarrow> \<exists>s'. continuePlayback s = Some s'"
proof (induction s rule: continuePlayback.induct)
  case (1 s)
  show ?case
  proof (cases "currentFrame s + 1 < int (length (frames s))")
    case False
    then show ?thesis by (simp add: continuePlayback.simps [of s])
  next
    case True
    with "1.prems" have fa: "frame_at (frames s) (currentFrame s + 1) = Some (frames s ! nat (currentFrame s + 1))"
      by (simp add: frame_at_def valid_position_def)
    let ?delay = "num_max0 (num_sub (num_add (num_sub (timestamp (frames s ! nat (currentFrame s + 1)))
                    (null_to_num (startVideoTimestamp s))) (null_to_num (startRealTimestamp s))) (Num (clock s)))"
    from seekToFrame_body_total [OF "1.prems", of "currentFrame s + 1" FrameDelayElapsed ?delay] True "1.prems"
    obtain r where body: "seekToFrame_body (currentFrame s + 1) FrameDelayElapsed ?delay s = Some r"
      by (auto simp: valid_position_def)
    show ?thesis
    proof (cases "fst r")
      case False
      with True fa body show ?thesis
        by (simp add: continuePlayback.simps [of s] Let_def)
    next
      case due: True
      from body "1.prems" have "valid_position (snd r)"
        by (cases r) (auto dest: seekToFrame_body_valid)
      from "1.IH" [OF True fa refl refl body due this] obtain s' where "continuePlayback (snd r) = Some s'"
        by blast
      with True fa body due show ?thesis
        by (simp add: continuePlayback.simps [of s] Let_def)
    qed
  qed
qed

lemma play_total: "valid_position s \<Longrightarrow> \<exists>s'. play s = Some s'"
proof (cases "\<not> isPlaying s \<and> currentFrame s + 1 < int (length (frames s))")
  case False
  then show ?thesis by (auto simp: play_def)
next
  case True
  assume v: "valid_position s"
  with True have fa: "frame_at (frames s) (currentFrame s + 1) = Some (frames s ! nat (currentFrame s + 1))"
    by (simp add: frame_at_def valid_position_def)
  let ?s1 = "(emit OnPlay s)\<lparr>startVideoTimestamp := Some (timestamp (frames s ! nat (currentFrame s + 1))),
        startRealTimestamp := Some (Num (clock (emit OnPlay s)))\<rparr>"
  have "valid_position ?s1"
    using v by (simp add: valid_position_def emit_def)
  from continuePlayback_total [OF this] obtain s' where "continuePlayback ?s1 = Some s'" by blast
  with True fa show ?thesis
    by (simp add: play_def Let_def emit_def)
qed

lemma restorePlaybackState_total:
  assumes "valid_position s"
  shows "\<exists>s'. restorePlaybackState c s = Some s'"
proof -
  have "valid_position (s\<lparr>seekCallback := None\<rparr>)"
    using assms by (simp add: valid_position_def)
  from play_total [OF this] obtain s2 where "play (s\<lparr>seekCallback := None\<rparr>) = Some s2" by blast
  then show ?thesis
    by (simp add: restorePlaybackState_unfold)
qed

lemma cancel_total: "valid_position s \<Longrightarrow> \<exists>s'. cancel s = Some s'"
  by (cases "seekCallback s")
     (auto simp: cancel_def intro: restorePlaybackState_total abortSeek_valid)

subsection \<open>Reaching the example states\<close>

text \<open>
  The recording \<open>4.sync,1.0;4.sync,3.100;\<close> after its load.
\<close>

definition recording_0_100 :: "recording option" where
  "recording_0_100 = ingest [(sync, [decimal 0]), (sync, [decimal 100])] (initial 0)"

text \<open>
  The recording \<open>4.sync,1.0;4.sync,3.100;4.sync,3.200;\<close> after its load, and then after
  \<open>seek(200, callback 7)\<close> has run to its end: the read of frame 0, the export of the
  state of keyframe 0, the read of frame 1 and the read of frame 2 complete in turn.
\<close>

definition three_frames :: "recording option" where
  "three_frames = ingest [(sync, [decimal 0]), (sync, [decimal 100]), (sync, [decimal 200])] (initial 0)"

definition seek_to_end :: "recording option" where
  "seek_to_end =
     Option.bind (Option.bind (Option.bind (Option.bind (Option.bind three_frames
       (seek (Num 200) (Some 7))) (complete 0)) (complete 0)) (complete 0)) (complete 0)"

lemmas eval_engine = play_def isPlaying_def continuePlayback.simps seekToFrame_body_def abortSeek_def
  seekToFrame_loop.simps continueReplay_body.simps replayFrame_def pause_def seek_def cancel_def
  restorePlaybackState_def continueReplay_def seekToFrame_def complete_def replayCompleted_def
  storeClientState_def findFrame.simps

lemma handleInstruction_aborted:
  "handleInstruction opcode args s = Some s' \<Longrightarrow> aborted s' = aborted s"
proof (cases "opcode = sync")
  case False
  assume "handleInstruction opcode args s = Some s'"
  with False show ?thesis by (auto simp: handleInstruction_other)
next
  case True
  assume "handleInstruction opcode args s = Some s'"
  with True have "handleInstruction sync args s = Some s'" by simp
  then obtain s3 where
    "s' = emit (OnProgress (getDuration s3) (frameEnd s3)) s3"
    "s3 = flagKeyframe (pushFrame args s) \<or> s3 = pushFrame args s"
    unfolding handleInstruction_sync_unfold by (auto split: option.splits if_splits)
  then show ?thesis
    by (auto simp: emit_def flagKeyframe_def pushFrame_def Let_def)
qed

lemma parseInstructions_reachable:
  "reachable s \<Longrightarrow> \<not> aborted s \<Longrightarrow> parseInstructions is s = Some s' \<Longrightarrow> reachable s'"
proof (induction "is" arbitrary: s)
  case Nil
  then show ?case by simp
next
  case (Cons i "is")
  from Cons.prems(3) obtain s1 where
    h: "handleInstruction (fst i) (snd i) s = Some s1" and rest: "parseInstructions is s1 = Some s'"
    by (auto split: option.splits)
  from Cons.prems(1,2) h have "reachable s1" by (rule r_instruction)
  moreover from h Cons.prems(2) have "\<not> aborted s1" by (simp add: handleInstruction_aborted)
  ultimately show ?case using rest by (rule Cons.IH)
qed

lemma ingest_reachable: "ingest is (initial now) = Some s \<Longrightarrow> reachable s"
proof -
  assume "ingest is (initial now) = Some s"
  then obtain s1 where p: "parseInstructions is (initial now) = Some s1"
    and s: "s = recordingLoaded (is \<noteq> []) s1"
    by (auto simp: ingest_def)
  have "reachable s1"
    by (rule parseInstructions_reachable [OF r_initial _ p]) (simp add: initial_def)
  then show ?thesis unfolding s by (rule r_loaded)
qed

lemma bind_reachable:
  assumes "Option.bind m f = Some s'"
    and "\<And>s. m = Some s \<Longrightarrow> reachable s"
    and "\<And>s. reachable s \<Longrightarrow> f s = Some s' \<Longrightarrow> reachable s'"
  shows "reachable s'"
  using assms by (cases m) auto

lemma three_frames_reachable: "three_frames = Some s \<Longrightarrow> reachable s"
  unfolding three_frames_def by (rule ingest_reachable)

lemma seek_to_end_reachable: "seek_to_end = Some s \<Longrightarrow> reachable s"
  unfolding seek_to_end_def
  by (erule bind_reachable, erule bind_reachable, erule bind_reachable, erule bind_reachable,
      erule bind_reachable, erule three_frames_reachable)
     (erule (1) r_seek r_complete)+


text \<open>
  A recording of three frames, paused, after \<open>seek(200, callback 7)\<close> has returned: the
  read of frame 0 is under way.
\<close>

definition paused_seek :: "recording option" where
  "paused_seek = Option.bind three_frames (seek (Num 200) (Some 7))"


lemma paused_seek_reachable: "paused_seek = Some s \<Longrightarrow> reachable s"
  unfolding paused_seek_def
  by (erule bind_reachable, erule three_frames_reachable) (erule (1) r_seek)

subsection \<open>No call throws in a reachable state\<close>

text \<open>
  The only operation of the engine that can throw is the read of a property of
  \<open>frames[i]\<close> with \<open>i\<close> outside the table. The indices the engine holds are the
  current frame, the last keyframe, and the indices waiting in the replays and timers that
  have not completed. They all stay inside the table.
\<close>

fun valid_continuation :: "nat \<Rightarrow> continuation \<Rightarrow> bool" where
  "valid_continuation n (ContinueReplay thisSeek startIndex index cb) \<longleftrightarrow>
     - 1 \<le> startIndex \<and> index < int n"

fun valid_task :: "nat \<Rightarrow> task \<Rightarrow> bool" where
  "valid_task n (ReplayRead index k) \<longleftrightarrow> 0 \<le> index \<and> index < int n \<and> valid_continuation n k"
| "valid_task n (Timeout k) \<longleftrightarrow> valid_continuation n k"
| "valid_task n (ExportState i st) \<longleftrightarrow> True"

definition pending_valid :: "recording \<Rightarrow> bool" where
  "pending_valid s \<longleftrightarrow> (\<forall>t \<in> set (pending s). valid_task (length (frames s)) t)"

lemma seekToFrame_loop_pending:
  "seekToFrame_loop index startIndex s = Some (startIndex', s') \<Longrightarrow>
     pending s' = pending s \<and> (- 1 \<le> startIndex \<longrightarrow> - 1 \<le> startIndex')"
proof (induction index startIndex s rule: seekToFrame_loop.induct)
  case (1 index startIndex s)
  then show ?case
    by (subst (asm) (2) seekToFrame_loop.simps)
       (auto split: if_splits option.splits)
qed

lemma continueReplay_body_pending:
  assumes "continueReplay_body k s = Some (b, s')" and "pending_valid s" and "valid_position s"
    and "valid_continuation (length (frames s)) k"
  shows "pending_valid s'"
proof -
  obtain t startIndex index cb where k: "k = ContinueReplay t startIndex index cb"
    by (cases k)
  from assms(1) have "pending s' = pending s \<and> frames s' = frames s
      \<or> (pending s' = pending s @ [ReplayRead (currentFrame s + 1) k] \<and> frames s' = frames s
          \<and> frame_at (frames s) (currentFrame s + 1) \<noteq> None)"
    unfolding k
    by (auto simp: continueReplay_body.simps emit_def replayFrame_def split: if_splits option.splits)
  moreover have "valid_task (length (frames s)) (ReplayRead (currentFrame s + 1) k)"
    if "frame_at (frames s) (currentFrame s + 1) \<noteq> None"
    using that assms(4) by (auto simp: frame_at_def split: if_splits)
  ultimately show ?thesis
    using assms(2) by (auto simp: pending_valid_def)
qed

lemma seekToFrame_body_pending:
  assumes "seekToFrame_body index cb delay s = Some (b, s')" and "pending_valid s" and "valid_position s"
    and "- 1 \<le> index" and "index < int (length (frames s))"
  shows "pending_valid s'"
proof -
  let ?s2 = "(abortSeek s)\<lparr>seeks := (seeks (abortSeek s))(nextSeek (abortSeek s) := False),
                nextSeek := nextSeek (abortSeek s) + 1,
                activeSeek := Some (nextSeek (abortSeek s))\<rparr>"
  have s2: "pending ?s2 = pending s" "frames ?s2 = frames s" "valid_position ?s2"
    using assms(3) by (simp_all add: abortSeek_def valid_position_def split: option.splits)
  from assms(1) obtain startIndex s3 where
    loop: "seekToFrame_loop index index ?s2 = Some (startIndex, s3)"
    by (auto simp: seekToFrame_body_def Let_def split: option.splits)
  let ?k = "ContinueReplay (nextSeek (abortSeek s)) startIndex index cb"
  from seekToFrame_loop_pending [OF loop] seekToFrame_loop_result [OF loop] seekToFrame_loop_valid [OF loop s2(3)]
    s2 assms(4)
  have s3: "pending s3 = pending s" "frames s3 = frames s" "valid_position s3" "- 1 \<le> startIndex"
    by simp_all
  with assms(2,5) have pv3: "pending_valid s3" and vk: "valid_continuation (length (frames s3)) ?k"
    by (simp_all add: pending_valid_def)
  from loop assms(1) have
    "(truthy delay \<and> s' = s3\<lparr>pending := pending s3 @ [Timeout ?k]\<rparr>)
     \<or> continueReplay_body ?k s3 = Some (b, s')"
    by (auto simp: seekToFrame_body_def Let_def split: if_splits)
  then show ?thesis
  proof
    assume "truthy delay \<and> s' = s3\<lparr>pending := pending s3 @ [Timeout ?k]\<rparr>"
    with pv3 vk show ?thesis by (auto simp: pending_valid_def)
  next
    assume "continueReplay_body ?k s3 = Some (b, s')"
    from continueReplay_body_pending [OF this pv3 s3(3) vk] show ?thesis .
  qed
qed

lemma pause_pending: "pending_valid s \<Longrightarrow> pending_valid (pause s)"
  by (simp add: pending_valid_def pause_def Let_def emit_def abortSeek_def split: option.splits)

lemma continuePlayback_pending:
  "continuePlayback s = Some s' \<Longrightarrow> pending_valid s \<Longrightarrow> valid_position s \<Longrightarrow> pending_valid s'"
proof (induction s arbitrary: s' rule: continuePlayback.induct)
  case (1 s)
  show ?case
  proof (cases "currentFrame s + 1 < int (length (frames s))")
    case False
    with "1.prems" show ?thesis
      by (auto simp: continuePlayback.simps [of s] pause_pending)
  next
    case True
    with "1.prems" obtain nxt r where
      nxt: "frame_at (frames s) (currentFrame s + 1) = Some nxt" and
      body: "seekToFrame_body (currentFrame s + 1) FrameDelayElapsed
               (num_max0 (num_sub (num_add (num_sub (timestamp nxt) (null_to_num (startVideoTimestamp s)))
                  (null_to_num (startRealTimestamp s))) (Num (clock s)))) s = Some r" and
      rest: "(if fst r then continuePlayback (snd r) else Some (snd r)) = Some s'"
      by (auto simp: continuePlayback.simps [of s] Let_def split: option.splits)
    from "1.prems"(3) have "- 1 \<le> currentFrame s + 1" by (simp add: valid_position_def)
    with body "1.prems" True have step: "pending_valid (snd r)" "valid_position (snd r)"
      by (cases r, auto dest: seekToFrame_body_pending seekToFrame_body_valid)+
    show ?thesis
    proof (cases "fst r")
      case due: True
      with rest have "continuePlayback (snd r) = Some s'" by simp
      from "1.IH" [OF True nxt refl refl body due this step] show ?thesis .
    next
      case False
      with rest step show ?thesis by simp
    qed
  qed
qed

lemma play_pending:
  assumes "play s = Some s'" and "pending_valid s" and "valid_position s"
  shows "pending_valid s'"
proof (cases "\<not> isPlaying s \<and> currentFrame s + 1 < int (length (frames s))")
  case False
  with assms show ?thesis by (auto simp: play_def)
next
  case True
  with assms(1) have "\<exists>nxt :: frame. continuePlayback ((emit OnPlay s)\<lparr>startVideoTimestamp := Some (timestamp nxt),
        startRealTimestamp := Some (Num (clock (emit OnPlay s)))\<rparr>) = Some s'"
    by (auto simp: play_def Let_def split: option.splits)
  then obtain nxt :: frame where
    "continuePlayback ((emit OnPlay s)\<lparr>startVideoTimestamp := Some (timestamp nxt),
        startRealTimestamp := Some (Num (clock (emit OnPlay s)))\<rparr>) = Some s'" ..
  from continuePlayback_pending [OF this] assms(2,3) show ?thesis
    by (simp add: pending_valid_def valid_position_def emit_def)
qed

lemma restorePlaybackState_pending:
  assumes "restorePlaybackState c s = Some s'" and "pending_valid s" and "valid_position s"
  shows "pending_valid s'"
proof -
  let ?s1 = "s\<lparr>seekCallback := None\<rparr>"
  from assms(1) obtain s3 where
    s3: "(if fst (closures s c)
          then map_option (\<lambda>s2. s2\<lparr>closures := (closures s2)(c := (False, snd (closures s c)))\<rparr>) (play ?s1)
          else Some ?s1) = Some s3" and
    s': "s' = (case snd (closures s c) of None \<Rightarrow> s3 | Some u \<Rightarrow> emit (UserCallback u) s3)"
    unfolding restorePlaybackState_unfold by (auto split: option.splits)
  have "pending_valid ?s1" "valid_position ?s1"
    using assms(2,3) by (simp_all add: pending_valid_def valid_position_def)
  with s3 have "pending_valid s3"
    by (auto simp: pending_valid_def split: if_splits dest!: play_pending)
  with s' show ?thesis
    by (auto simp: pending_valid_def emit_def split: option.splits)
qed

lemma call_pending:
  "call cb s = Some s' \<Longrightarrow> pending_valid s \<Longrightarrow> valid_position s \<Longrightarrow> pending_valid s'"
  by (cases cb) (auto dest: restorePlaybackState_pending continuePlayback_pending)

lemma continueReplay_pending:
  assumes "continueReplay k s = Some s'" and "pending_valid s" and "valid_position s"
    and "valid_continuation (length (frames s)) k"
  shows "pending_valid s'"
proof -
  from assms(1) obtain r where
    body: "continueReplay_body k s = Some r" and
    rest: "(if fst r then call (callback_of k) (snd r) else Some (snd r)) = Some s'"
    by (auto simp: continueReplay_def split: option.splits)
  from body have b: "continueReplay_body k s = Some (fst r, snd r)" by simp
  from continueReplay_body_pending [OF b assms(2,3,4)] have p: "pending_valid (snd r)" .
  from continueReplay_body_currentFrame [OF b] continueReplay_body_playback_only [OF b] assms(3)
  have v: "valid_position (snd r)" by (simp add: playback_only_def valid_position_def)
  from rest p v show ?thesis
    by (auto split: if_splits dest: call_pending)
qed

lemma seekToFrame_pending:
  assumes "seekToFrame index cb delay s = Some s'" and "pending_valid s" and "valid_position s"
    and "- 1 \<le> index" and "index < int (length (frames s))"
  shows "pending_valid s'"
proof -
  from assms(1) obtain r where
    body: "seekToFrame_body index cb delay s = Some r" and
    rest: "(if fst r then call cb (snd r) else Some (snd r)) = Some s'"
    by (auto simp: seekToFrame_def split: option.splits)
  from body have b: "seekToFrame_body index cb delay s = Some (fst r, snd r)" by simp
  from seekToFrame_body_pending [OF b assms(2-5)] seekToFrame_body_valid [OF b assms(3)] rest
  show ?thesis
    by (auto split: if_splits dest: call_pending)
qed

lemma cancel_pending:
  assumes "cancel s = Some s'" and "pending_valid s" and "valid_position s"
  shows "pending_valid s'"
proof (cases "seekCallback s")
  case None
  with assms show ?thesis by (simp add: cancel_def)
next
  case (Some c)
  with assms(1) have r: "restorePlaybackState c (abortSeek s) = Some s'"
    by (simp add: cancel_def)
  have "pending_valid (abortSeek s)"
    using assms(2) by (simp add: pending_valid_def abortSeek_def split: option.splits)
  from restorePlaybackState_pending [OF r this abortSeek_valid [OF assms(3)]] show ?thesis .
qed

lemma findFrame_whole_range:
  assumes "frames s \<noteq> []"
  shows "\<exists>target. findFrame (frames s) 0 (int (length (frames s)) - 1) position = Some target
    \<and> 0 \<le> target \<and> target < int (length (frames s))"
proof -
  from assms have "(0::int) \<le> int (length (frames s)) - 1" "int (length (frames s)) - 1 < int (length (frames s))"
    by (simp_all add: Suc_leI)
  from findFrame_in_range [where a = 0 and ts = position, OF _ this] show ?thesis by auto
qed

lemma seek_pending:
  assumes "seek position userCallback s = Some s'" and "pending_valid s" and "valid_position s"
  shows "pending_valid s'"
proof (cases "length (frames s) = 0")
  case True
  with assms show ?thesis by (simp add: seek_def)
next
  case False
  let ?c = "\<lambda>s1. nextClosure (pause s1)"
  let ?s3 = "\<lambda>s1. (pause s1)\<lparr>closures := (closures (pause s1))(?c s1 := (isPlaying s1, userCallback)),
                        nextClosure := ?c s1 + 1, seekCallback := Some (?c s1)\<rparr>"
  from False assms(1) obtain s1 target where
    c: "cancel s = Some s1" and
    ff: "findFrame (frames (?s3 s1)) 0 (int (length (frames (?s3 s1))) - 1) position = Some target" and
    sk: "seekToFrame target (RestorePlaybackState (?c s1)) (Num 0) (?s3 s1) = Some s'"
    by (auto simp: seek_def Let_def split: option.splits)
  from cancel_pending [OF c assms(2,3)] cancel_valid [OF c assms(3)] cancel_engine_step [OF c]
  have s1: "pending_valid s1" "valid_position s1" "frames s1 = frames s"
    by (simp_all add: engine_step_def)
  have fr3: "frames (?s3 s1) = frames s"
    using s1(3) pause_playback_only [of s1] by (simp add: playback_only_def)
  have p3: "pending_valid (?s3 s1)" "valid_position (?s3 s1)"
    using pause_pending [OF s1(1)] pause_valid [OF s1(2)]
    by (simp_all add: pending_valid_def valid_position_def)
  from False fr3 have "frames (?s3 s1) \<noteq> []" by simp
  from findFrame_whole_range [OF this, of position] ff
  have "0 \<le> target" "target < int (length (frames (?s3 s1)))" by simp_all
  with seekToFrame_pending [OF sk p3] show ?thesis by simp
qed

lemma replayCompleted_pending:
  assumes "replayCompleted index k s = Some s'" and "pending_valid s"
    and "valid_continuation (length (frames s)) k"
  shows "pending_valid s'"
proof -
  let ?s3 = "\<lambda>f. (if keyframe f \<and> clientState f = None
            then s\<lparr>display := display s @ [nat index], pending := pending s @ [ExportState (nat index) (display s @ [nat index])]\<rparr>
            else s\<lparr>display := display s @ [nat index]\<rparr>)\<lparr>currentFrame := index\<rparr>"
  from assms(1) obtain f where
    f: "frame_at (frames s) index = Some f" and
    k: "continueReplay k (?s3 f) = Some s'"
    by (auto simp: replayCompleted_def Let_def split: option.splits if_splits)
  from f have "0 \<le> index" "index < int (length (frames s))"
    by (auto simp: frame_at_def split: if_splits)
  with assms(2,3) have "pending_valid (?s3 f)" "valid_position (?s3 f)"
    "valid_continuation (length (frames (?s3 f))) k"
    by (simp_all add: pending_valid_def valid_position_def)
  with continueReplay_pending [OF k] show ?thesis by blast
qed

lemma replayCompleted_lastKeyframe:
  assumes "replayCompleted index k s = Some s'"
  shows "lastKeyframe s' = lastKeyframe s \<and> length (frames s') = length (frames s)"
proof -
  from assms obtain f where
    f: "frame_at (frames s) index = Some f" and
    k: "continueReplay k
          ((if keyframe f \<and> clientState f = None
            then s\<lparr>display := display s @ [nat index], pending := pending s @ [ExportState (nat index) (display s @ [nat index])]\<rparr>
            else s\<lparr>display := display s @ [nat index]\<rparr>)\<lparr>currentFrame := index\<rparr>) = Some s'"
    by (auto simp: replayCompleted_def Let_def split: option.splits if_splits)
  from continueReplay_engine_step [OF k] show ?thesis
    by (auto simp: engine_step_def split: if_splits)
qed

lemma complete_pending:
  assumes "complete n s = Some s'" and "pending_valid s" and "valid_position s"
  shows "pending_valid s'"
proof (cases "n < length (pending s)")
  case False
  with assms show ?thesis by (simp add: complete_def)
next
  case True
  let ?s0 = "s\<lparr>pending := take n (pending s) @ drop (Suc n) (pending s)\<rparr>"
  from True assms(1) have run: "run_task (pending s ! n) ?s0 = Some s'"
    by (simp add: complete_def)
  have "set (take n (pending s) @ drop (Suc n) (pending s)) \<subseteq> set (pending s)"
    by (auto dest: in_set_takeD in_set_dropD)
  with assms(2) have p0: "pending_valid ?s0"
    by (auto simp: pending_valid_def)
  have v0: "valid_position ?s0"
    using assms(3) by (simp add: valid_position_def)
  from True assms(2) have t: "valid_task (length (frames s)) (pending s ! n)"
    by (simp add: pending_valid_def)
  show ?thesis
  proof (cases "pending s ! n")
    case (ReplayRead index k)
    with run t replayCompleted_pending [of index k ?s0 s'] p0 show ?thesis by simp
  next
    case (Timeout k)
    with run t continueReplay_pending [of k ?s0 s'] p0 v0 show ?thesis by simp
  next
    case (ExportState i st)
    with run p0 show ?thesis by (auto simp: storeClientState_def pending_valid_def)
  qed
qed

lemma valid_task_mono: "valid_task n t \<Longrightarrow> n \<le> m \<Longrightarrow> valid_task m t"
proof (cases t)
  case (ReplayRead index k)
  assume "valid_task n t" "n \<le> m"
  with ReplayRead show ?thesis by (cases k) auto
next
  case (Timeout k)
  assume "valid_task n t" "n \<le> m"
  with Timeout show ?thesis by (cases k) auto
next
  case (ExportState i st)
  then show ?thesis by simp
qed

text \<open>
  With these the calls of the engine return in every reachable state: no read of the
  frame table is out of range.
\<close>

definition indices_valid :: "recording \<Rightarrow> bool" where
  "indices_valid s \<longleftrightarrow>
     valid_position s \<and> pending_valid s \<and> (frames s \<noteq> [] \<longrightarrow> lastKeyframe s < length (frames s))"

lemma handleInstruction_indices:
  assumes "handleInstruction opcode args s = Some s'" and "indices_valid s"
  shows "indices_valid s'"
proof (cases "opcode = sync")
  case False
  with assms show ?thesis
    by (auto simp: handleInstruction_other indices_valid_def valid_position_def pending_valid_def)
next
  case True
  with assms(1) have h: "handleInstruction sync args s = Some s'" by simp
  from handleInstruction_sync [OF h] obtain kf f where
    fr: "frames s' = frames s @ [f]" and
    lk: "lastKeyframe s' = (if kf then length (frames s) else lastKeyframe s)" and
    kf: "kf \<longleftrightarrow> frames s = [] \<or>
           (\<exists>k. frame_at (frames (pushFrame args s)) (int (lastKeyframe s)) = Some k
               \<and> keyframeDue (pushFrame args s) (last (frames (pushFrame args s))) k)" and
    same: "currentFrame s' = currentFrame s" "pending s' = pending s"
    by blast
  have "lastKeyframe s' < length (frames s')"
  proof (cases kf)
    case True
    then show ?thesis by (simp add: lk fr)
  next
    case False
    with kf have "frames s \<noteq> []" by blast
    with assms(2) False show ?thesis by (simp add: lk fr indices_valid_def)
  qed
  moreover have "valid_task (length (frames s')) t" if "t \<in> set (pending s)" for t
    using that assms(2) valid_task_mono [of "length (frames s)" t "length (frames s')"]
    by (simp add: indices_valid_def pending_valid_def fr)
  ultimately show ?thesis
    using assms(2) same by (simp add: indices_valid_def valid_position_def pending_valid_def fr)
qed

lemma reachable_indices: "reachable s \<Longrightarrow> indices_valid s"
proof (induction rule: reachable.induct)
  case (r_initial now)
  show ?case
    by (simp add: indices_valid_def valid_position_def pending_valid_def initial_def)
next
  case (r_instruction s opcode args s')
  then show ?case by (blast intro: handleInstruction_indices)
next
  case (r_loaded s onload)
  then show ?case
    by (simp add: indices_valid_def valid_position_def pending_valid_def recordingLoaded_def emit_def)
next
  case (r_error s)
  then show ?case
    by (simp add: indices_valid_def valid_position_def pending_valid_def parseError_def emit_def)
next
  case (r_failed s n d)
  then have i: "indices_valid s" by simp
  have "valid_task (length (frames s)) t"
    if "t \<in> set (take n (pending s) @ drop (Suc n) (pending s))" for t
  proof -
    from that have "t \<in> set (pending s)"
      by (auto dest: in_set_takeD in_set_dropD)
    with i show ?thesis by (simp add: indices_valid_def pending_valid_def)
  qed
  with i replayFailed_result [of n d s] show ?case
    by (auto simp: indices_valid_def valid_position_def pending_valid_def parseError_def emit_def)
next
  case (r_clock s now)
  then show ?case
    by (simp add: indices_valid_def valid_position_def pending_valid_def)
next
  case (r_play s s')
  with play_valid [of s s'] play_pending [of s s'] play_playback_only [of s s'] show ?case
    by (simp add: indices_valid_def playback_only_def)
next
  case (r_pause s)
  with pause_valid [of s] pause_pending [of s] pause_playback_only [of s] show ?case
    by (simp add: indices_valid_def playback_only_def)
next
  case (r_seek s position userCallback s')
  with seek_valid [of position userCallback s s'] seek_pending [of position userCallback s s']
    seek_engine_step [of position userCallback s s']
  show ?case
    by (simp add: indices_valid_def engine_step_def)
next
  case (r_cancel s s')
  with cancel_valid [of s s'] cancel_pending [of s s'] cancel_engine_step [of s s'] show ?case
    by (simp add: indices_valid_def engine_step_def)
next
  case (r_abort s)
  then show ?case
    by (simp add: indices_valid_def valid_position_def pending_valid_def abort_def emit_def)
next
  case (r_complete s n s')
  then have c: "complete n s = Some s'" and i: "indices_valid s" by simp_all
  from reachable_invariant [OF r_complete.hyps(1)] complete_invariant [OF c]
  have "engine_invariant s'" by blast
  have "lastKeyframe s' = lastKeyframe s \<and> length (frames s') = length (frames s)"
  proof (cases "n < length (pending s)")
    case False
    with c show ?thesis by (simp add: complete_def)
  next
    case True
    let ?s0 = "s\<lparr>pending := take n (pending s) @ drop (Suc n) (pending s)\<rparr>"
    from True c have run: "run_task (pending s ! n) ?s0 = Some s'"
      by (simp add: complete_def)
    show ?thesis
    proof (cases "pending s ! n")
      case (ReplayRead index k)
      with run replayCompleted_lastKeyframe [of index k ?s0 s'] show ?thesis
        by simp
    next
      case (Timeout k)
      with run continueReplay_engine_step [of k ?s0 s'] show ?thesis
        by (simp add: engine_step_def)
    next
      case (ExportState i st)
      with run show ?thesis by (auto simp: storeClientState_def)
    qed
  qed
  with i complete_valid [OF c] complete_pending [OF c] show ?case
    by (auto simp: indices_valid_def)
qed

lemma call_total: "valid_position s \<Longrightarrow> \<exists>s'. call cb s = Some s'"
  by (cases cb) (auto intro: continuePlayback_total restorePlaybackState_total)

lemma continueReplay_total:
  assumes "valid_position s" and "valid_continuation (length (frames s)) k"
  shows "\<exists>s'. continueReplay k s = Some s'"
proof -
  obtain t startIndex index cb where k: "k = ContinueReplay t startIndex index cb"
    by (cases k)
  from continueReplay_body_total [OF assms(1), of startIndex index t cb] assms(2) obtain r where
    body: "continueReplay_body k s = Some r"
    by (auto simp: k)
  then have b: "continueReplay_body k s = Some (fst r, snd r)" by simp
  from continueReplay_body_currentFrame [OF b] continueReplay_body_playback_only [OF b] assms(1)
  have "valid_position (snd r)" by (simp add: playback_only_def valid_position_def)
  from call_total [OF this, of "callback_of k"] body show ?thesis
    by (auto simp: continueReplay_def)
qed

lemma seekToFrame_total:
  assumes "valid_position s" and "- 1 \<le> index" and "index < int (length (frames s))"
  shows "\<exists>s'. seekToFrame index cb delay s = Some s'"
proof -
  from seekToFrame_body_total [OF assms, of cb delay] obtain r where
    body: "seekToFrame_body index cb delay s = Some r" by blast
  then have b: "seekToFrame_body index cb delay s = Some (fst r, snd r)" by simp
  from call_total [OF seekToFrame_body_valid [OF b assms(1)], of cb] body show ?thesis
    by (auto simp: seekToFrame_def)
qed

lemma seek_total:
  assumes "valid_position s"
  shows "\<exists>s'. seek position userCallback s = Some s'"
proof (cases "length (frames s) = 0")
  case True
  then show ?thesis by (simp add: seek_def)
next
  case False
  let ?c = "\<lambda>s1. nextClosure (pause s1)"
  let ?s3 = "\<lambda>s1. (pause s1)\<lparr>closures := (closures (pause s1))(?c s1 := (isPlaying s1, userCallback)),
                        nextClosure := ?c s1 + 1, seekCallback := Some (?c s1)\<rparr>"
  from cancel_total [OF assms] obtain s1 where c: "cancel s = Some s1" by blast
  from cancel_valid [OF c assms] cancel_engine_step [OF c]
  have s1: "valid_position s1" "frames s1 = frames s"
    by (simp_all add: engine_step_def)
  have fr3: "frames (?s3 s1) = frames s"
    using s1(2) pause_playback_only [of s1] by (simp add: playback_only_def)
  have v3: "valid_position (?s3 s1)"
    using pause_valid [OF s1(1)] by (simp add: valid_position_def)
  from False fr3 have "frames (?s3 s1) \<noteq> []" by simp
  from findFrame_whole_range [OF this, of position] obtain target where
    ff: "findFrame (frames (?s3 s1)) 0 (int (length (frames (?s3 s1))) - 1) position = Some target" and
    t: "0 \<le> target" "target < int (length (frames (?s3 s1)))"
    by blast
  from seekToFrame_total [OF v3 _ t(2), of "RestorePlaybackState (?c s1)" "Num 0"] t(1)
  obtain s' where "seekToFrame target (RestorePlaybackState (?c s1)) (Num 0) (?s3 s1) = Some s'"
    by auto
  with False c ff show ?thesis
    by (simp add: seek_def Let_def)
qed

lemma complete_total:
  assumes "indices_valid s"
  shows "\<exists>s'. complete n s = Some s'"
proof (cases "n < length (pending s)")
  case False
  then show ?thesis by (simp add: complete_def)
next
  case True
  let ?s0 = "s\<lparr>pending := take n (pending s) @ drop (Suc n) (pending s)\<rparr>"
  from assms have v0: "valid_position ?s0" and fr: "frames ?s0 = frames s"
    by (simp_all add: indices_valid_def valid_position_def)
  from True assms have t: "valid_task (length (frames s)) (pending s ! n)"
    by (simp add: indices_valid_def pending_valid_def)
  have "\<exists>s'. run_task (pending s ! n) ?s0 = Some s'"
  proof (cases "pending s ! n")
    case (ReplayRead index k)
    with t have i: "0 \<le> index" "index < int (length (frames s))" and vk: "valid_continuation (length (frames s)) k"
      by simp_all
    let ?f = "frames s ! nat index"
    let ?s3 = "(if keyframe ?f \<and> clientState ?f = None
            then ?s0\<lparr>display := display ?s0 @ [nat index], pending := pending ?s0 @ [ExportState (nat index) (display ?s0 @ [nat index])]\<rparr>
            else ?s0\<lparr>display := display ?s0 @ [nat index]\<rparr>)\<lparr>currentFrame := index\<rparr>"
    from i have fa: "frame_at (frames ?s0) index = Some ?f"
      by (simp add: frame_at_def)
    have "valid_position ?s3" "valid_continuation (length (frames ?s3)) k"
      using i vk by (simp_all add: valid_position_def)
    from continueReplay_total [OF this] obtain s' where "continueReplay k ?s3 = Some s'" by blast
    with fa have "replayCompleted index k ?s0 = Some s'"
      by (cases "keyframe ?f \<and> clientState ?f = None") (auto simp: replayCompleted_def Let_def)
    with ReplayRead show ?thesis by simp
  next
    case (Timeout k)
    with t fr have "valid_continuation (length (frames ?s0)) k" by simp
    from continueReplay_total [OF v0 this] Timeout show ?thesis by simp
  next
    case (ExportState i st)
    then show ?thesis by simp
  qed
  with True show ?thesis by (simp add: complete_def)
qed

lemma handleInstruction_total:
  assumes "indices_valid s"
  shows "\<exists>s'. handleInstruction opcode args s = Some s'"
proof (cases "opcode = sync")
  case False
  then show ?thesis by (simp add: handleInstruction_other)
next
  case True
  show ?thesis
  proof (cases "frames s = []")
    case e: True
    with True show ?thesis by (simp add: handleInstruction_sync_unfold)
  next
    case False
    with assms have "lastKeyframe s < length (frames s)"
      by (simp add: indices_valid_def)
    then have "frame_at (frames (pushFrame args s)) (int (lastKeyframe s)) = Some (frames s ! lastKeyframe s)"
      by (simp add: frame_at_def pushFrame_fields nth_append)
    with False True show ?thesis by (simp add: handleInstruction_sync_unfold)
  qed
qed

lemma reachable_calls_return:
  assumes "reachable s"
  shows "(\<exists>s'. play s = Some s') \<and> (\<exists>s'. seek position userCallback s = Some s')
    \<and> (\<exists>s'. cancel s = Some s') \<and> (\<exists>s'. complete n s = Some s')
    \<and> (\<exists>s'. handleInstruction opcode args s = Some s') \<and> (\<exists>p. getPosition s = Some p)"
proof -
  from reachable_indices [OF assms] have i: "indices_valid s" .
  then have v: "valid_position s" by (simp add: indices_valid_def)
  have "\<exists>p. getPosition s = Some p"
    using v by (auto simp: getPosition_def frame_at_def valid_position_def)
  with play_total [OF v] seek_total [OF v] cancel_total [OF v] complete_total [OF i]
    handleInstruction_total [OF i]
  show ?thesis by blast
qed

subsection \<open>One seek at a time\<close>

































subsection \<open>Calls of the user's callback\<close>




















text \<open>
  \<open>later u s t\<close>: the state \<open>t\<close> follows \<open>s\<close> after any number of steps, none of which hands
  the callback \<open>u\<close> to a new seek.
\<close>

inductive later :: "nat \<Rightarrow> recording \<Rightarrow> recording \<Rightarrow> bool" for u :: nat and s :: recording where
  l_now: "later u s s"
| l_instruction: "later u s t \<Longrightarrow> \<not> aborted t \<Longrightarrow> handleInstruction opcode args t = Some t' \<Longrightarrow> later u s t'"
| l_loaded: "later u s t \<Longrightarrow> later u s (recordingLoaded onload t)"
| l_error: "later u s t \<Longrightarrow> later u s (parseError t)"
| l_clock: "later u s t \<Longrightarrow> clock t \<le> now \<Longrightarrow> later u s (t\<lparr>clock := now\<rparr>)"
| l_play: "later u s t \<Longrightarrow> play t = Some t' \<Longrightarrow> later u s t'"
| l_pause: "later u s t \<Longrightarrow> later u s (pause t)"
| l_seek: "later u s t \<Longrightarrow> userCallback \<noteq> Some u \<Longrightarrow> seek position userCallback t = Some t' \<Longrightarrow> later u s t'"
| l_cancel: "later u s t \<Longrightarrow> cancel t = Some t' \<Longrightarrow> later u s t'"
| l_abort: "later u s t \<Longrightarrow> later u s (abort t)"
| l_complete: "later u s t \<Longrightarrow> complete n t = Some t' \<Longrightarrow> later u s t'"
| l_failed: "later u s t \<Longrightarrow> later u s (replayFailed n d t)"



text \<open>
  The recording \<open>4.sync,4.1000;4.sync,4.1100;\<close> after its load, then \<open>play()\<close>, the read
  of frame 0, the timer of frame 1, and \<open>seek(100, callback 7)\<close>; then the read of frame 1
  that the timer had started completes, although its seek is aborted, and makes frame 1
  the current frame. The engine was playing when the seek began, but the \<open>play()\<close> that
  \<open>cancel()\<close> calls finds no frame to play.
\<close>

definition end_of_stream :: "recording option" where
  "end_of_stream =
     Option.bind (Option.bind (Option.bind (Option.bind (Option.bind
       (ingest [(sync, [decimal 1000]), (sync, [decimal 1100])] (initial 0))
       play) (complete 0)) (complete 1)) (seek (Num 100) (Some 7))) (complete 1)"

lemma cancel_at_end_of_stream:
  "map_option (\<lambda>s. (seekCallback s, closures s 0, isPlaying s, currentFrame s, userCallbacks (events s)))
     end_of_stream
     = Some (Some 0, (True, Some 7), False, 1, [])
   \<and> map_option (\<lambda>s. (seekCallback s, isPlaying s, userCallbacks (events s)))
       (Option.bind end_of_stream cancel)
     = Some (None, False, [7])"
  by (simp add: end_of_stream_def eval_ingest eval_engine)

text \<open>
  When \<open>seek\<close> returns with its callback stored, the engine is paused, and the closure
  holds the user's callback and whether the engine was playing after the \<open>cancel()\<close> that
  \<open>seek\<close> begins with.
\<close>

lemma seekToFrame_loop_timestamps:
  "seekToFrame_loop index startIndex s = Some (startIndex', s') \<Longrightarrow>
     startVideoTimestamp s' = startVideoTimestamp s"
proof (induction index startIndex s rule: seekToFrame_loop.induct)
  case (1 index startIndex s)
  then show ?case
    by (subst (asm) (2) seekToFrame_loop.simps)
       (auto split: if_splits option.splits)
qed

lemma seekToFrame_body_timestamps:
  assumes "seekToFrame_body index cb delay s = Some (b, s')"
  shows "startVideoTimestamp s' = startVideoTimestamp s"
proof -
  let ?s2 = "(abortSeek s)\<lparr>seeks := (seeks (abortSeek s))(nextSeek (abortSeek s) := False),
                nextSeek := nextSeek (abortSeek s) + 1,
                activeSeek := Some (nextSeek (abortSeek s))\<rparr>"
  have s2: "startVideoTimestamp ?s2 = startVideoTimestamp s"
    by (simp add: abortSeek_def split: option.splits)
  from assms obtain startIndex s3 where
    loop: "seekToFrame_loop index index ?s2 = Some (startIndex, s3)"
    by (auto simp: seekToFrame_body_def Let_def split: option.splits)
  with assms have
    "(truthy delay \<and> s' = s3\<lparr>pending := pending s3 @ [Timeout (ContinueReplay (nextSeek (abortSeek s)) startIndex index cb)]\<rparr>)
     \<or> continueReplay_body (ContinueReplay (nextSeek (abortSeek s)) startIndex index cb) s3 = Some (b, s')"
    by (auto simp: seekToFrame_body_def Let_def split: if_splits)
  then have "startVideoTimestamp s' = startVideoTimestamp s3"
    by (auto simp: continueReplay_body.simps emit_def replayFrame_def split: if_splits option.splits)
  with seekToFrame_loop_timestamps [OF loop] s2 show ?thesis by simp
qed

lemma pause_not_playing: "\<not> isPlaying (pause s)"
  by (simp add: pause_def Let_def isPlaying_def emit_def split: option.splits)

lemma seek_in_flight:
  assumes "seek position userCallback s0 = Some s" and "frames s0 \<noteq> []" and "seekCallback s \<noteq> None"
  shows "\<not> isPlaying s
    \<and> (\<exists>s1 c. cancel s0 = Some s1 \<and> seekCallback s = Some c \<and> closures s c = (isPlaying s1, userCallback))"
proof -
  let ?c = "\<lambda>s1. nextClosure (pause s1)"
  let ?s3 = "\<lambda>s1. (pause s1)\<lparr>closures := (closures (pause s1))(?c s1 := (isPlaying s1, userCallback)),
                        nextClosure := ?c s1 + 1, seekCallback := Some (?c s1)\<rparr>"
  from assms(1,2) obtain s1 target where
    c: "cancel s0 = Some s1" and
    sk: "seekToFrame target (RestorePlaybackState (?c s1)) (Num 0) (?s3 s1) = Some s"
    by (auto simp: seek_def Let_def split: option.splits)
  from sk obtain r where
    body: "seekToFrame_body target (RestorePlaybackState (?c s1)) (Num 0) (?s3 s1) = Some r" and
    rest: "(if fst r then call (RestorePlaybackState (?c s1)) (snd r) else Some (snd r)) = Some s"
    by (auto simp: seekToFrame_def split: option.splits)
  from rest assms(3) have s: "s = snd r"
    by (auto split: if_splits dest: restorePlaybackState_result)
  from body have b: "seekToFrame_body target (RestorePlaybackState (?c s1)) (Num 0) (?s3 s1) = Some (fst r, s)"
    by (simp add: s)
  from seekToFrame_body_timestamps [OF b] pause_not_playing [of s1] have "\<not> isPlaying s"
    by (simp add: isPlaying_def)
  moreover from seekToFrame_body_playback_only [OF b]
  have "seekCallback s = Some (?c s1)" "closures s (?c s1) = (isPlaying s1, userCallback)"
    by (simp_all add: playback_only_def)
  ultimately show ?thesis using c by blast
qed

section \<open>The claims\<close>

text \<open>
  C1. Claimed: for every string, \<open>getElementSize\<close> is the code-point length \<open>L\<close> of the
  value plus the number of decimal digits of \<open>L\<close> plus 2. The function measures the value
  with \<open>value.length\<close>, which counts UTF-16 code units. For the one-character value
  U+1F600, whose element on the wire is \<open>1.\<close>, the character and a terminator (4 code
  points), it returns 5.
\<close>

theorem getElementSize_surrogate_pair:
  "getElementSize [128512] = 5
   \<and> length [128512 :: nat] + digits (length [128512 :: nat]) + 2 = 4
   \<and> length (encode_element [128512] @ [44]) = 4"
  by (simp add: getElementSize_units js_length_def utf16_units_def digits_less10
        encode_element_def decimal.simps [of "Suc 0"])

text \<open>
  C2. Claimed: on frames with non-decreasing timestamps, \<open>findFrame\<close> over the whole
  index range returns a frame whose timestamp is closest to the position. For the
  recording \<open>4.sync,1.0;4.sync,3.100;\<close> and position 1 the search returns frame 1, at
  distance 99, although frame 0 is at distance 1.
\<close>

theorem findFrame_not_closest:
  "map_option frames (ingest [(sync, [decimal 0]), (sync, [decimal 100])] (initial 0)) = Some frames_0_100
   \<and> findFrame frames_0_100 0 (int (length frames_0_100) - 1) (Num 1) = Some 1
   \<and> frameDistance frames_0_100 (Num 1) (frames_0_100 ! 1) = Num 99
   \<and> frameDistance frames_0_100 (Num 1) (frames_0_100 ! 0) = Num 1
   \<and> \<not> minimisesDistance frames_0_100 (Num 1) 1
   \<and> minimisesDistance frames_0_100 (Num 1) 0"
proof -
  have "map_option frames (ingest [(sync, [decimal 0]), (sync, [decimal 100])] (initial 0)) = Some frames_0_100"
    by (simp add: eval_ingest frames_0_100_def)
  moreover have "findFrame frames_0_100 0 (int (length frames_0_100) - 1) (Num 1) = Some 1"
    by (simp add: frames_0_100_def findFrame.simps [of _ 0 1] findFrame_single
          frame_at_def toRelativeTimestamp_def)
  moreover have "frameDistance frames_0_100 (Num 1) (frames_0_100 ! 1) = Num 99"
    and "frameDistance frames_0_100 (Num 1) (frames_0_100 ! 0) = Num 1"
    by (simp_all add: frames_0_100_def frameDistance_def)
  moreover have "\<not> minimisesDistance frames_0_100 (Num 1) 1"
    and "minimisesDistance frames_0_100 (Num 1) 0"
    by (simp_all add: frames_0_100_def minimisesDistance_def frame_at_def frameDistance_def)
  ultimately show ?thesis by blast
qed

text \<open>
  C10. \<open>findFrame\<close> terminates on every region \<open>0 \<le> minIndex \<le> maxIndex < frames.length\<close>:
  the region is in the domain on which the recursion is well-founded, every recursive
  call made from it (the call relation of the definition) searches a non-empty region
  inside it that is strictly smaller, the search of a one-element region returns that
  element without a further call, and the search returns an index of the region.
\<close>

theorem findFrame_terminates:
  assumes "0 \<le> minIndex" and "minIndex \<le> maxIndex" and "maxIndex < int (length fs)"
  shows "findFrame_dom (fs, minIndex, maxIndex, ts)
    \<and> (\<forall>lo hi. findFrame_rel (fs, lo, hi, ts) (fs, minIndex, maxIndex, ts) \<longrightarrow>
          minIndex \<le> lo \<and> lo \<le> hi \<and> hi \<le> maxIndex \<and> hi - lo < maxIndex - minIndex)
    \<and> findFrame fs minIndex minIndex ts = Some minIndex
    \<and> (\<exists>r. findFrame fs minIndex maxIndex ts = Some r \<and> minIndex \<le> r \<and> r \<le> maxIndex)"
  using findFrame_dom_all findFrame_rel_shrinks findFrame_in_range [OF assms]
  by (auto simp: findFrame_single)


theorem findFrame_terminates_witness:
  "findFrame_dom (frames_0_100, 0, 1, Num 1)
   \<and> findFrame frames_0_100 0 0 (Num 1) = Some 0
   \<and> (\<exists>r. findFrame frames_0_100 0 1 (Num 1) = Some r \<and> 0 \<le> r \<and> r \<le> 1)"
  using findFrame_terminates [of 0 1 frames_0_100 "Num 1"]
  by (simp add: frames_0_100_def)

text \<open>
  C5. Claimed: \<open>isPlaying()\<close> is true exactly when \<open>startVideoTimestamp\<close> is present, also
  when the play run began at a frame with timestamp 0. \<open>isPlaying\<close> tests the truthiness
  of \<open>startVideoTimestamp\<close>: after \<open>play()\<close> on a recording whose first frame has
  timestamp 0 both clocks are set, \<open>onplay\<close> has fired and the read of frame 0 is under
  way, and \<open>isPlaying()\<close> is false.
\<close>

theorem isPlaying_false_at_timestamp_0:
  "map_option (\<lambda>s. (startVideoTimestamp s, startRealTimestamp s, last (events s), pending s, isPlaying s))
     (Option.bind recording_0_100 play)
   = Some (Some (Num 0), Some (Num 0), OnPlay,
           [ReplayRead 0 (ContinueReplay 0 (- 1) 0 FrameDelayElapsed)], False)"
  by (simp add: recording_0_100_def eval_ingest eval_engine)

text \<open>
  C6. Claimed: when \<open>seekToFrame\<close> takes its baseline from the snapshot of a keyframe
  \<open>k < target\<close>, the frames \<open>k+1 .. target\<close> are replayed before the callback runs. With
  all three frames rendered and the snapshot of keyframe 0 stored, \<open>seek(100, callback 8)\<close>
  has target 1: the snapshot of frame 0 is imported, \<open>currentFrame\<close> becomes 1, the
  callback runs within the call, and no frame is replayed (the display holds frame 0
  only and no read is waiting).
\<close>

theorem seekToFrame_skips_replay_after_importState:
  "map_option (\<lambda>s. (currentFrame s, display s, pending s, map clientState (frames s))) seek_to_end
     = Some (2, [0, 1, 2], [], [Some [0], None, None])
   \<and> map_option (\<lambda>s. (currentFrame s, display s, pending s, drop 8 (events s)))
       (Option.bind seek_to_end (seek (Num 100) (Some 8)))
     = Some (1, [0], [], [OnSeek (Num 100) 1 1, UserCallback 8])"
  by (simp add: seek_to_end_def three_frames_def eval_ingest eval_engine)

text \<open>
  C3. Claimed: after the full ingest of a well-formed blob, \<open>frames[0].start = 0\<close>,
  \<open>frames[i].end = frames[i+1].start\<close>, \<open>frames[n-1].end\<close> is the blob size, and the frame
  timestamps are non-decreasing. Amended: the ingest of every instruction list succeeds,
  the table is contiguous from offset 0, and the frame timestamps are the timestamps of
  the sync instructions in stream order, hence non-decreasing when those are; the last
  frame ends at the blob size when the last instruction is a sync and every character
  of the blob is a single byte.
\<close>

theorem ingest_frame_table:
  "\<exists>s. ingest is (initial now) = Some s
     \<and> (frames s \<noteq> [] \<longrightarrow> start (frames s ! 0) = 0)
     \<and> (\<forall>i. Suc i < length (frames s) \<longrightarrow> end_off (frames s ! i) = start (frames s ! Suc i))
     \<and> map timestamp (frames s) = sync_timestamps is
     \<and> (sorted_wrt (\<lambda>t u. num_ge u t) (sync_timestamps is)
          \<longrightarrow> sorted_wrt (\<lambda>f g. num_ge (timestamp g) (timestamp f)) (frames s))
     \<and> (is \<noteq> [] \<and> fst (last is) = sync \<and> ascii_only is
          \<longrightarrow> frames s \<noteq> [] \<and> end_off (last (frames s)) = utf8_size (encode_blob is))"
proof -
  from parseInstructions_indexer [OF initial_indexer_invariant, of "is" now] obtain s1 where
    s1: "parseInstructions is (initial now) = Some s1" "indexer_invariant s1"
      "frameEnd s1 = frameEnd (initial now) + sum_list (map instruction_size is)"
      "map timestamp (frames s1) = map timestamp (frames (initial now)) @ sync_timestamps is"
      "is \<noteq> [] \<and> fst (last is) = sync \<longrightarrow> frameStart s1 = frameEnd s1"
    by blast
  let ?s = "recordingLoaded (is \<noteq> []) s1"
  have fr: "frames ?s = frames s1"
    by (simp add: recordingLoaded_def emit_def)
  have ing: "ingest is (initial now) = Some ?s"
    by (simp add: ingest_def s1(1))
  from s1(2) have ti: "tiles 0 (frames s1) (frameStart s1)"
    by (simp add: indexer_invariant_def)
  have ts: "map timestamp (frames s1) = sync_timestamps is"
    using s1(4) by (simp add: initial_def)
  have fe: "frameEnd s1 = sum_list (map instruction_size is)"
    using s1(3) by (simp add: initial_def)
  have c1: "frames s1 \<noteq> [] \<longrightarrow> start (frames s1 ! 0) = 0"
    using tiles_nth [OF ti] by blast
  have c2: "\<forall>i. Suc i < length (frames s1) \<longrightarrow> end_off (frames s1 ! i) = start (frames s1 ! Suc i)"
    using tiles_nth [OF ti] by (cases "frames s1 = []") auto
  have c3: "sorted_wrt (\<lambda>t u. num_ge u t) (sync_timestamps is)
          \<longrightarrow> sorted_wrt (\<lambda>f g. num_ge (timestamp g) (timestamp f)) (frames s1)"
  proof -
    have "sorted_wrt (\<lambda>t u. num_ge u t) (map timestamp (frames s1))
        = sorted_wrt (\<lambda>f g. num_ge (timestamp g) (timestamp f)) (frames s1)"
      by (simp add: sorted_wrt_map)
    with ts show ?thesis by simp
  qed
  have c4: "frames s1 \<noteq> [] \<and> end_off (last (frames s1)) = utf8_size (encode_blob is)"
    if h: "is \<noteq> [] \<and> fst (last is) = sync \<and> ascii_only is"
  proof -
    from h have "last is \<in> set (filter (\<lambda>i. fst i = sync) is)" by simp
    then have "filter (\<lambda>i. fst i = sync) is \<noteq> []"
      by (metis empty_iff empty_set)
    then have "sync_timestamps is \<noteq> []"
      by (simp add: sync_timestamps_def)
    with ts have ne: "frames s1 \<noteq> []" by auto
    from tiles_nth [OF ti ne] have "end_off (last (frames s1)) = frameStart s1" by blast
    with h s1(5) fe utf8_size_encode_blob [of "is"] ne show ?thesis by simp
  qed
  from ing c1 c2 c3 c4 ts show ?thesis
    unfolding fr [symmetric] by blast
qed

theorem ingest_frame_table_witness:
  "\<exists>s. ingest [(sync, [decimal 0]), (sync, [decimal 100])] (initial 0) = Some s
     \<and> start (frames s ! 0) = 0
     \<and> end_off (frames s ! 0) = start (frames s ! 1)
     \<and> map timestamp (frames s) = [Num 0, Num 100]
     \<and> sorted_wrt (\<lambda>f g. num_ge (timestamp g) (timestamp f)) (frames s)
     \<and> end_off (last (frames s)) = utf8_size (encode_blob [(sync, [decimal 0]), (sync, [decimal 100])])
     \<and> end_off (last (frames s)) = 24"
proof -
  let ?is = "[(sync, [decimal 0]), (sync, [decimal 100])]"
  have ts: "sync_timestamps ?is = [Num 0, Num 100]"
    by (simp add: sync_timestamps_def parseInt_decimal)
  have asc: "ascii_only ?is"
    by (simp add: ascii_only_def sync_ascii decimal_ascii)
  have size: "utf8_size (encode_blob ?is) = 24"
    by (simp add: utf8_size_encode_blob [OF asc] instruction_size_def getElementSize_sync
          getElementSize_decimal digits_less10 digits_ge10)
  from ingest_frame_table [of ?is 0] obtain s where
    s: "ingest ?is (initial 0) = Some s"
      "frames s \<noteq> [] \<longrightarrow> start (frames s ! 0) = 0"
      "\<forall>i. Suc i < length (frames s) \<longrightarrow> end_off (frames s ! i) = start (frames s ! Suc i)"
      "map timestamp (frames s) = sync_timestamps ?is"
      "sorted_wrt (\<lambda>t u. num_ge u t) (sync_timestamps ?is)
          \<longrightarrow> sorted_wrt (\<lambda>f g. num_ge (timestamp g) (timestamp f)) (frames s)"
      "?is \<noteq> [] \<and> fst (last ?is) = sync \<and> ascii_only ?is
          \<longrightarrow> frames s \<noteq> [] \<and> end_off (last (frames s)) = utf8_size (encode_blob ?is)"
    by blast
  from s(4) ts have len: "length (frames s) = 2"
    by (metis length_map length_Cons list.size(3) numeral_2_eq_2)
  from s(6) asc have "frames s \<noteq> []" "end_off (last (frames s)) = utf8_size (encode_blob ?is)"
    by simp_all
  moreover from s(3) len have "end_off (frames s ! 0) = start (frames s ! 1)"
    by simp
  moreover from s(5) ts have "sorted_wrt (\<lambda>f g. num_ge (timestamp g) (timestamp f)) (frames s)"
    by simp
  ultimately show ?thesis
    using s(1) s(2) s(4) ts size by auto
qed

text \<open>
  The claim as stated fails: a frame ends with its sync, so instructions after the last
  sync are in no frame (\<open>trailing_nop\<close>: the last frame ends at 11, the blob has 17 bytes);
  the indexer stores the timestamps as they come (\<open>decreasing_syncs\<close>); and the offsets
  count UTF-16 code units, not bytes (\<open>two_byte_character\<close>: the last frame ends at 22,
  the blob has 23 bytes).
\<close>

theorem ingest_end_before_blob_size:
  "map_option (\<lambda>s. (map end_off (frames s), end_off (last (frames s)) = utf8_size (encode_blob trailing_nop)))
      (ingest trailing_nop (initial 0)) = Some ([11], False)
   \<and> ascii_only trailing_nop \<and> utf8_size (encode_blob trailing_nop) = 17
   \<and> map_option (\<lambda>s. (map timestamp (frames s), sorted_wrt (\<lambda>f g. num_ge (timestamp g) (timestamp f)) (frames s)))
      (ingest decreasing_syncs (initial 0)) = Some ([Num 5, Num 0], False)
   \<and> map_option (\<lambda>s. map end_off (frames s)) (ingest two_byte_character (initial 0)) = Some [22]
   \<and> utf8_size (encode_blob two_byte_character) = 23"
proof -
  have asc: "ascii_only trailing_nop"
    by (simp add: trailing_nop_def ascii_only_def sync_ascii decimal_ascii ascii_def)
  have size: "utf8_size (encode_blob trailing_nop) = 17"
    unfolding utf8_size_encode_blob [OF asc]
    by (simp add: trailing_nop_def instruction_size_def getElementSize_sync getElementSize_nop
          getElementSize_decimal digits_less10)
  have "map_option (\<lambda>s. map end_off (frames s)) (ingest trailing_nop (initial 0)) = Some [11]"
    by (simp add: trailing_nop_def eval_ingest nop_not_sync getElementSize_nop)
  with size have a: "map_option (\<lambda>s. (map end_off (frames s), end_off (last (frames s)) = utf8_size (encode_blob trailing_nop)))
      (ingest trailing_nop (initial 0)) = Some ([11], False)"
    by (auto simp: map_option_case split: option.splits)
  have b: "map_option (\<lambda>s. (map timestamp (frames s), sorted_wrt (\<lambda>f g. num_ge (timestamp g) (timestamp f)) (frames s)))
      (ingest decreasing_syncs (initial 0)) = Some ([Num 5, Num 0], False)"
    by (simp add: decreasing_syncs_def eval_ingest)
  have c: "map_option (\<lambda>s. map end_off (frames s)) (ingest two_byte_character (initial 0)) = Some [22]"
    by (simp add: two_byte_character_def eval_ingest name_not_sync getElementSize_name getElementSize_233)
  have d: "utf8_size (encode_blob two_byte_character) = 23"
    by (simp add: two_byte_character_def encode_blob_def encode_instruction_def encode_element_def
          decimal_digit utf8_size_def utf8_bytes_def sync_def ascii_def)
  from a asc size b c d show ?thesis by blast
qed

text \<open>
  C4. Claimed: for consecutive keyframes \<open>a < b\<close> with \<open>a \<noteq> 0\<close>,
  \<open>frames[b].start - frames[a].start \<ge> 16384\<close> and the timestamps are at least 5000
  apart; frame 0 is a keyframe. Amended: the character interval is measured from the
  start of keyframe \<open>a\<close> to the end of keyframe \<open>b\<close>, and both intervals hold between
  all consecutive keyframes, frame 0 included.
\<close>

theorem ingest_keyframe_spacing:
  "\<exists>s. ingest is (initial now) = Some s
     \<and> (frames s \<noteq> [] \<longrightarrow> keyframe (frames s ! 0))
     \<and> (\<forall>a b. a < b \<and> b < length (frames s) \<and> keyframe (frames s ! a) \<and> keyframe (frames s ! b)
              \<and> (\<forall>k. a < k \<and> k < b \<longrightarrow> \<not> keyframe (frames s ! k))
          \<longrightarrow> int (end_off (frames s ! b)) - int (start (frames s ! a)) \<ge> 16384
              \<and> num_ge (num_sub (timestamp (frames s ! b)) (timestamp (frames s ! a))) (Num 5000))"
proof -
  from parseInstructions_indexer [OF initial_indexer_invariant, of "is" now] obtain s1 where
    s1: "parseInstructions is (initial now) = Some s1" "indexer_invariant s1"
    by blast
  let ?s = "recordingLoaded (is \<noteq> []) s1"
  have fr: "frames ?s = frames s1"
    by (simp add: recordingLoaded_def emit_def)
  have ing: "ingest is (initial now) = Some ?s"
    by (simp add: ingest_def s1(1))
  from s1(2) have "frames s1 \<noteq> [] \<longrightarrow> keyframe (frames s1 ! 0)" and "keyframes_spaced (frames s1)"
    by (simp_all add: indexer_invariant_def)
  with ing show ?thesis
    unfolding fr [symmetric] keyframes_spaced_def KEYFRAME_CHAR_INTERVAL_def KEYFRAME_TIME_INTERVAL_def
    by blast
qed

theorem ingest_keyframe_spacing_witness:
  "\<exists>s. ingest long_frame (initial 0) = Some s
     \<and> map (\<lambda>f. (keyframe f, start f, end_off f)) (frames s) = [(True, 0, 11), (True, 11, 16438)]
     \<and> int (end_off (frames s ! 1)) - int (start (frames s ! 0)) \<ge> 16384
     \<and> num_ge (num_sub (timestamp (frames s ! 1)) (timestamp (frames s ! 0))) (Num 5000)"
proof -
  have ev: "map_option frames (ingest long_frame (initial 0))
      = Some [\<lparr>keyframe = True, timestamp = Num 0, start = 0, end_off = 11, clientState = None\<rparr>,
              \<lparr>keyframe = True, timestamp = Num 5000, start = 11, end_off = 16438, clientState = None\<rparr>]"
    by (simp add: long_frame_def eval_ingest nop_not_sync getElementSize_nop getElementSize_payload)
  from ingest_keyframe_spacing [of long_frame 0] obtain s where
    s: "ingest long_frame (initial 0) = Some s" and
    sp: "\<forall>a b. a < b \<and> b < length (frames s) \<and> keyframe (frames s ! a) \<and> keyframe (frames s ! b)
              \<and> (\<forall>k. a < k \<and> k < b \<longrightarrow> \<not> keyframe (frames s ! k))
          \<longrightarrow> int (end_off (frames s ! b)) - int (start (frames s ! a)) \<ge> 16384
              \<and> num_ge (num_sub (timestamp (frames s ! b)) (timestamp (frames s ! a))) (Num 5000)"
    by blast
  from ev s have fr: "frames s
      = [\<lparr>keyframe = True, timestamp = Num 0, start = 0, end_off = 11, clientState = None\<rparr>,
         \<lparr>keyframe = True, timestamp = Num 5000, start = 11, end_off = 16438, clientState = None\<rparr>]"
    by simp
  have "0 < (1::nat) \<and> 1 < length (frames s) \<and> keyframe (frames s ! 0) \<and> keyframe (frames s ! 1)
      \<and> (\<forall>k. 0 < k \<and> k < (1::nat) \<longrightarrow> \<not> keyframe (frames s ! k))"
    by (auto simp: fr)
  with sp have "int (end_off (frames s ! 1)) - int (start (frames s ! 0)) \<ge> 16384
      \<and> num_ge (num_sub (timestamp (frames s ! 1)) (timestamp (frames s ! 0))) (Num 5000)"
    by blast
  moreover have "map (\<lambda>f. (keyframe f, start f, end_off f)) (frames s) = [(True, 0, 11), (True, 11, 16438)]"
    by (simp add: fr)
  ultimately show ?thesis using s by (intro exI [of _ s]) simp
qed

text \<open>
  The claim as stated fails: in \<open>short_frame_long_end\<close> the keyframes 1 and 2 start
  16380 characters apart.
\<close>

theorem keyframe_starts_closer_than_interval:
  "map_option (\<lambda>s. map (\<lambda>f. (keyframe f, start f, end_off f, timestamp f)) (frames s))
      (ingest short_frame_long_end (initial 0))
     = Some [(True, 0, 11, Num 0), (True, 11, 16391, Num 5000), (True, 16391, 16406, Num 10000)]
   \<and> map_option (\<lambda>s. keyframe_starts_spaced (frames s)) (ingest short_frame_long_end (initial 0))
     = Some False"
proof -
  have ev: "map_option frames (ingest short_frame_long_end (initial 0))
     = Some [\<lparr>keyframe = True, timestamp = Num 0, start = 0, end_off = 11, clientState = None\<rparr>,
             \<lparr>keyframe = True, timestamp = Num 5000, start = 11, end_off = 16391, clientState = None\<rparr>,
             \<lparr>keyframe = True, timestamp = Num 10000, start = 16391, end_off = 16406, clientState = None\<rparr>]"
    by (simp add: short_frame_long_end_def eval_ingest nop_not_sync getElementSize_nop getElementSize_payload)
  then obtain s where
    s: "ingest short_frame_long_end (initial 0) = Some s" and
    fr: "frames s = [\<lparr>keyframe = True, timestamp = Num 0, start = 0, end_off = 11, clientState = None\<rparr>,
             \<lparr>keyframe = True, timestamp = Num 5000, start = 11, end_off = 16391, clientState = None\<rparr>,
             \<lparr>keyframe = True, timestamp = Num 10000, start = 16391, end_off = 16406, clientState = None\<rparr>]"
    by auto
  have "\<not> keyframe_starts_spaced (frames s)"
  proof
    assume "keyframe_starts_spaced (frames s)"
    then have "1 < (2::nat) \<and> 2 < length (frames s) \<and> (1::nat) \<noteq> 0 \<and> keyframe (frames s ! 1) \<and> keyframe (frames s ! 2)
            \<and> (\<forall>k. 1 < k \<and> k < 2 \<longrightarrow> \<not> keyframe (frames s ! k))
        \<longrightarrow> int (start (frames s ! 2)) - int (start (frames s ! 1)) \<ge> 16384"
      unfolding keyframe_starts_spaced_def by blast
    then show False by (simp add: fr)
  qed
  with s fr show ?thesis by simp
qed

text \<open>
  C7. On a recording without frames, in any reachable state, \<open>seek\<close> and \<open>play\<close> return
  without changing the state (so without an event), and \<open>getDuration\<close> and \<open>getPosition\<close>
  return 0.
\<close>

theorem empty_recording_is_inert:
  assumes "reachable s" and "frames s = []"
  shows "seek position userCallback s = Some s \<and> play s = Some s
    \<and> getDuration s = Num 0 \<and> getPosition s = Some (Num 0)"
proof -
  from reachable_invariant [OF assms(1)] have v: "valid_position s"
    by (simp add: engine_invariant_def)
  with assms(2) have "currentFrame s = - 1"
    by (simp add: valid_position_def)
  with assms(2) v show ?thesis
    by (simp add: seek_empty play_empty getDuration_def getPosition_def)
qed

theorem empty_recording_is_inert_witness:
  "\<exists>s. ingest [(ascii ''nop'', [])] (initial 0) = Some s \<and> reachable s \<and> frames s = []
     \<and> seek (Num 100) (Some 1) s = Some s \<and> play s = Some s
     \<and> getDuration s = Num 0 \<and> getPosition s = Some (Num 0)"
proof -
  have "map_option frames (ingest [(ascii ''nop'', [])] (initial 0)) = Some []"
    by (simp add: eval_ingest nop_not_sync)
  then obtain s where s: "ingest [(ascii ''nop'', [])] (initial 0) = Some s" and e: "frames s = []"
    by auto
  from s have r: "reachable s" by (rule ingest_reachable)
  from empty_recording_is_inert [OF r e, of "Num 100" "Some 1"] s r e show ?thesis
    by (intro exI [of _ s]) simp
qed

text \<open>
  C8. In every reachable state a frame that holds a \<open>clientState\<close> is flagged as a
  keyframe, and every \<open>exportState\<close> whose callback has yet to store its snapshot was
  requested for a keyframe. A frame is created without a \<open>clientState\<close>; no call of the
  interface, end of the load or parse error changes a frame or requests a snapshot. The
  completion of the replay of a frame requests a snapshot of that frame exactly when the
  frame is a keyframe and holds no \<open>clientState\<close> at that moment, and changes no frame;
  a timer does neither. The one step that stores a \<open>clientState\<close> is the completion of
  a requested \<open>exportState\<close>: it stores its snapshot in the frame it was requested for,
  whatever that frame holds by then.
\<close>

theorem clientState_only_on_keyframes:
  assumes "reachable s"
  shows "(\<forall>f \<in> set (frames s). clientState f \<noteq> None \<longrightarrow> keyframe f)
    \<and> (\<forall>(i, st) \<in> set (exports (pending s)). i < length (frames s) \<and> keyframe (frames s ! i))
    \<and> (handleInstruction opcode args s = Some s' \<longrightarrow>
         frames s' = frames s \<or> (\<exists>f. frames s' = frames s @ [f] \<and> clientState f = None))
    \<and> (play s = Some s' \<or> s' = pause s \<or> seek position userCallback s = Some s' \<or> cancel s = Some s'
        \<or> s' = recordingLoaded onload s \<or> s' = parseError s \<or> s' = abort s
        \<or> s' = replayFailed m d s \<longrightarrow>
         frames s' = frames s \<and> exports (pending s') = exports (pending s))
    \<and> (n < length (pending s) \<and> complete n s = Some s' \<longrightarrow>
         (case pending s ! n of
            ReplayRead index k \<Rightarrow>
              frames s' = frames s
              \<and> exports (pending s') = exports (pending s) @
                  (if keyframe (frames s ! nat index) \<and> clientState (frames s ! nat index) = None
                   then [(nat index, display s @ [nat index])] else [])
          | Timeout k \<Rightarrow> frames s' = frames s \<and> exports (pending s') = exports (pending s)
          | ExportState i st \<Rightarrow>
              frames s' = (frames s)[i := (frames s ! i)\<lparr>clientState := Some st\<rparr>]))"
proof -
  from reachable_invariant [OF assms] have
    inv: "\<forall>f \<in> set (frames s). clientState f \<noteq> None \<longrightarrow> keyframe f"
      "\<forall>(i, st) \<in> set (exports (pending s)). i < length (frames s) \<and> keyframe (frames s ! i)"
    by (simp_all add: engine_invariant_def)
  have new: "frames s' = frames s \<or> (\<exists>f. frames s' = frames s @ [f] \<and> clientState f = None)"
    if "handleInstruction opcode args s = Some s'"
    using handleInstruction_result [OF that] by simp
  have api: "frames s' = frames s \<and> exports (pending s') = exports (pending s)"
    if "play s = Some s' \<or> s' = pause s \<or> seek position userCallback s = Some s' \<or> cancel s = Some s'
        \<or> s' = recordingLoaded onload s \<or> s' = parseError s \<or> s' = abort s
        \<or> s' = replayFailed m d s"
  proof -
    from that have "engine_step s s' \<or> s' = recordingLoaded onload s \<or> s' = parseError s \<or> s' = abort s
        \<or> s' = replayFailed m d s"
      by (auto dest: play_playback_only seek_engine_step cancel_engine_step
               intro: playback_only_engine_step pause_playback_only)
    then show ?thesis
      using replayFailed_exports [of m d s]
      by (auto simp: engine_step_def recordingLoaded_def parseError_def abort_def emit_def)
  qed
  have completion: "case pending s ! n of
            ReplayRead index k \<Rightarrow>
              frames s' = frames s
              \<and> exports (pending s') = exports (pending s) @
                  (if keyframe (frames s ! nat index) \<and> clientState (frames s ! nat index) = None
                   then [(nat index, display s @ [nat index])] else [])
          | Timeout k \<Rightarrow> frames s' = frames s \<and> exports (pending s') = exports (pending s)
          | ExportState i st \<Rightarrow>
              frames s' = (frames s)[i := (frames s ! i)\<lparr>clientState := Some st\<rparr>]"
    if n: "n < length (pending s)" and c: "complete n s = Some s'"
  proof -
    let ?s0 = "s\<lparr>pending := take n (pending s) @ drop (Suc n) (pending s)\<rparr>"
    from n c have run: "run_task (pending s ! n) ?s0 = Some s'"
      by (simp add: complete_def)
    from n have "pending s = take n (pending s) @ pending s ! n # drop (Suc n) (pending s)"
      by (rule id_take_nth_drop)
    then have ex: "exports (pending s)
        = exports (take n (pending s)) @ exports [pending s ! n] @ exports (drop (Suc n) (pending s))"
      by (metis exports_Cons exports_append)
    show ?thesis
    proof (cases "pending s ! n")
      case (ReplayRead index k)
      let ?s3 = "\<lambda>f. (if keyframe f \<and> clientState f = None
            then ?s0\<lparr>display := display ?s0 @ [nat index], pending := pending ?s0 @ [ExportState (nat index) (display ?s0 @ [nat index])]\<rparr>
            else ?s0\<lparr>display := display ?s0 @ [nat index]\<rparr>)\<lparr>currentFrame := index\<rparr>"
      from ReplayRead run have "replayCompleted index k ?s0 = Some s'" by simp
      then obtain f where
        f: "frame_at (frames ?s0) index = Some f" and
        k: "continueReplay k (?s3 f) = Some s'"
        by (auto simp: replayCompleted_def Let_def split: option.splits if_splits)
      from f have ff: "f = frames s ! nat index"
        by (auto simp: frame_at_def split: if_splits)
      from ex ReplayRead have "exports (pending ?s0) = exports (pending s)" by simp
      with continueReplay_engine_step [OF k] have
        "frames s' = frames s
         \<and> exports (pending s') = exports (pending s) @
             (if keyframe f \<and> clientState f = None then [(nat index, display s @ [nat index])] else [])"
        by (auto simp: engine_step_def split: if_splits)
      with ReplayRead ff show ?thesis by simp
    next
      case (Timeout k)
      with run have "continueReplay k ?s0 = Some s'" by simp
      from continueReplay_engine_step [OF this] ex Timeout show ?thesis
        by (simp add: engine_step_def)
    next
      case (ExportState i st)
      with run show ?thesis by (auto simp: storeClientState_def)
    qed
  qed
  from inv new api completion show ?thesis by blast
qed

theorem clientState_only_on_keyframes_witness:
  "(\<exists>s. seek_to_end = Some s \<and> reachable s
      \<and> map clientState (frames s) = [Some [0], None, None]
      \<and> keyframe (frames s ! 0))
   \<and> (\<exists>s s'. paused_seek = Some s \<and> reachable s
      \<and> pending s = [ReplayRead 0 (ContinueReplay 0 (- 1) 2 (RestorePlaybackState 0))]
      \<and> map (\<lambda>f. (keyframe f, clientState f)) (frames s) = [(True, None), (False, None), (False, None)]
      \<and> complete 0 s = Some s' \<and> frames s' = frames s \<and> exports (pending s') = [(0, [0])])"
proof
  have "map_option (\<lambda>s. map clientState (frames s)) seek_to_end = Some [Some [0], None, None]"
    by (simp add: seek_to_end_def three_frames_def eval_ingest eval_engine)
  then obtain s where s: "seek_to_end = Some s" and c: "map clientState (frames s) = [Some [0], None, None]"
    by auto
  from s have r: "reachable s" by (rule seek_to_end_reachable)
  from c have "frames s \<noteq> []" "clientState (frames s ! 0) = Some [0]"
    by (auto simp: map_eq_Cons_conv)
  then have "frames s ! 0 \<in> set (frames s)" "clientState (frames s ! 0) \<noteq> None"
    by simp_all
  with clientState_only_on_keyframes [OF r] have "keyframe (frames s ! 0)"
    by blast
  with s r c show "\<exists>s. seek_to_end = Some s \<and> reachable s
      \<and> map clientState (frames s) = [Some [0], None, None] \<and> keyframe (frames s ! 0)"
    by (intro exI [of _ s]) simp
next
  let ?k = "ContinueReplay 0 (- 1) 2 (RestorePlaybackState 0)"
  have "map_option (\<lambda>s. (pending s, map (\<lambda>f. (keyframe f, clientState f)) (frames s), display s)) paused_seek
      = Some ([ReplayRead 0 ?k], [(True, None), (False, None), (False, None)], [])"
    by (simp add: paused_seek_def three_frames_def eval_ingest eval_engine)
  then obtain s where s: "paused_seek = Some s" and
    p: "pending s = [ReplayRead 0 ?k]" and
    f: "map (\<lambda>f. (keyframe f, clientState f)) (frames s) = [(True, None), (False, None), (False, None)]" and
    d: "display s = []"
    by auto
  from s have r: "reachable s" by (rule paused_seek_reachable)
  from reachable_calls_return [OF r] obtain s' where c: "complete 0 s = Some s'" by blast
  from f have k0: "keyframe (frames s ! 0)" "clientState (frames s ! 0) = None"
    by (auto simp: map_eq_Cons_conv)
  from clientState_only_on_keyframes [OF r, where s' = s' and n = 0] p c k0 d
  have "frames s' = frames s \<and> exports (pending s') = [(0, [0])]"
    by simp
  with s r p f c show "\<exists>s s'. paused_seek = Some s \<and> reachable s
      \<and> pending s = [ReplayRead 0 ?k]
      \<and> map (\<lambda>f. (keyframe f, clientState f)) (frames s) = [(True, None), (False, None), (False, None)]
      \<and> complete 0 s = Some s' \<and> frames s' = frames s \<and> exports (pending s') = [(0, [0])]"
    by (intro exI [of _ s] exI [of _ s']) simp
qed




end
